theory Spec2Isabelle
  imports Main "HOL-Library.AList" "HOL-Library.Sublist"
begin

section \<open>Strings of the extractor\<close>

text \<open>
  The program is \<^verbatim>\<open>src/pdf_section_extractor.py\<close>, the class \<^verbatim>\<open>PDFSectionExtractor\<close>.
  A Python \<^verbatim>\<open>str\<close> is a sequence of Unicode code points, so a string is a list of
  natural numbers: \<^verbatim>\<open>len\<close>, slicing and indexing count code points, and the two
  non-ASCII characters the source names (U+2014 and U+2019) are the numbers 8212 and
  8217. \<open>str_of\<close> writes an ASCII literal as such a list.
\<close>

type_synonym str = "nat list"

definition str_of :: "string \<Rightarrow> str" where
  "str_of s = map of_char s"

text \<open>
  Tables of the Unicode database are used by the source through \<^verbatim>\<open>str.lower\<close> and the
  class \<^verbatim>\<open>\d\<close>. Their ASCII part is written out below where it is read; the rest
  is not in the repository and is a parameter: \<open>lower_of u c\<close> is the lowercase
  mapping of the code point \<open>c \<ge> 128\<close> (one or more code points), \<open>decimal_digit u c\<close>
  says whether \<open>c \<ge> 128\<close> is a decimal digit, and \<open>cased u c\<close> and
  \<open>case_ignorable u c\<close> are the properties Cased and Case_Ignorable, which
  \<^verbatim>\<open>str.lower\<close> reads around a capital sigma only.
\<close>

record unicode_tables =
  lower_of :: "nat \<Rightarrow> nat list"
  decimal_digit :: "nat \<Rightarrow> bool"
  cased :: "nat \<Rightarrow> bool"
  case_ignorable :: "nat \<Rightarrow> bool"

text \<open>
  Whitespace as \<^verbatim>\<open>str.strip\<close>, \<^verbatim>\<open>str.split\<close> and the class \<^verbatim>\<open>\s\<close> of a \<^verbatim>\<open>str\<close>
  pattern see it: TAB to CR, FS to US, space, NEL, NBSP, and the Unicode spaces.
\<close>

definition is_space :: "nat \<Rightarrow> bool" where
  "is_space c \<longleftrightarrow>
     (9 \<le> c \<and> c \<le> 13) \<or> (28 \<le> c \<and> c \<le> 32) \<or> c = 133 \<or> c = 160 \<or> c = 5760 \<or>
     (8192 \<le> c \<and> c \<le> 8202) \<or> c = 8232 \<or> c = 8233 \<or> c = 8239 \<or> c = 8287 \<or>
     c = 12288"

text \<open>
  \<^verbatim>\<open>characters_to_replace\<close>: \<^verbatim>\<open>string.punctuation\<close>, the 32 ASCII punctuation
  characters, followed by the em dash U+2014 and the right single quotation mark U+2019.
\<close>

definition characters_to_replace :: "nat \<Rightarrow> bool" where
  "characters_to_replace c \<longleftrightarrow>
     (33 \<le> c \<and> c \<le> 47) \<or> (58 \<le> c \<and> c \<le> 64) \<or> (91 \<le> c \<and> c \<le> 96) \<or>
     (123 \<le> c \<and> c \<le> 126) \<or> c = 8212 \<or> c = 8217"

text \<open>\<^verbatim>\<open>text.translate(str.maketrans(characters_to_replace, ' ' * len(...)))\<close>\<close>

definition translate :: "str \<Rightarrow> str" where
  "translate text = map (\<lambda>c. if characters_to_replace c then 32 else c) text"

text \<open>
  \<^verbatim>\<open>text.lower()\<close>. Every code point is mapped on its own by \<open>lower_cp\<close>, except the
  capital sigma U+03A3 (931): it becomes the final sigma U+03C2 (962) when it stands
  in the final-sigma context of the text being lowered, and the small sigma U+03C3
  (963) otherwise. The context is: going back over case-ignorable characters, a
  cased character is found; going forward over case-ignorable characters, the text
  ends or a character that is not cased is found. \<open>before\<close> holds the characters
  before the position, the nearest first.
\<close>

definition lower_cp :: "unicode_tables \<Rightarrow> nat \<Rightarrow> nat list" where
  "lower_cp u c =
     (if 65 \<le> c \<and> c \<le> 90 then [c + 32] else if c < 128 then [c] else lower_of u c)"

definition final_sigma :: "unicode_tables \<Rightarrow> str \<Rightarrow> str \<Rightarrow> bool" where
  "final_sigma u before after \<longleftrightarrow>
     (case dropWhile (case_ignorable u) before of [] \<Rightarrow> False | c # _ \<Rightarrow> cased u c)
     \<and> (case dropWhile (case_ignorable u) after of [] \<Rightarrow> True | c # _ \<Rightarrow> \<not> cased u c)"

fun lower_from :: "unicode_tables \<Rightarrow> str \<Rightarrow> str \<Rightarrow> str" where
  "lower_from u before [] = []"
| "lower_from u before (c # rest) =
     (if c = 931 then [if final_sigma u before rest then 962 else 963] else lower_cp u c)
     @ lower_from u (c # before) rest"

definition lower :: "unicode_tables \<Rightarrow> str \<Rightarrow> str" where
  "lower u text = lower_from u [] text"

text \<open>\<^verbatim>\<open>re.sub(r'\s+', ' ', text)\<close>: every maximal run of whitespace becomes one space.\<close>

function sub_spaces :: "str \<Rightarrow> str" where
  "sub_spaces [] = []"
| "sub_spaces (c # cs) =
     (if is_space c then 32 # sub_spaces (dropWhile is_space cs) else c # sub_spaces cs)"
  by pat_completeness auto
termination
  by (relation "measure length") (auto simp: length_dropWhile_le less_Suc_eq_le)

text \<open>\<^verbatim>\<open>text.strip()\<close>\<close>

definition strip :: "str \<Rightarrow> str" where
  "strip text = rev (dropWhile is_space (rev (dropWhile is_space text)))"

definition clean_text :: "unicode_tables \<Rightarrow> str \<Rightarrow> str" where
  "clean_text u text = strip (sub_spaces (lower u (translate text)))"

text \<open>\<^verbatim>\<open>sub in text\<close>\<close>

fun contains :: "str \<Rightarrow> str \<Rightarrow> bool" where
  "contains sub [] \<longleftrightarrow> sub = []"
| "contains sub (c # cs) \<longleftrightarrow> prefix sub (c # cs) \<or> contains sub cs"

text \<open>
  \<^verbatim>\<open>text.split(sep)\<close> for a non-empty separator (the source splits at the marker and
  at the newline): the pieces between the occurrences of \<open>sep\<close>, found left to right.
\<close>

function split_str :: "str \<Rightarrow> str \<Rightarrow> str list" where
  "split_str sep [] = [[]]"
| "split_str sep (c # cs) =
     (if sep \<noteq> [] \<and> prefix sep (c # cs)
      then [] # split_str sep (drop (length sep) (c # cs))
      else (case split_str sep cs of [] \<Rightarrow> [[c]] | p # ps \<Rightarrow> (c # p) # ps))"
  by pat_completeness auto
termination
  by (relation "measure (\<lambda>(sep, s). length s)") auto

text \<open>\<^verbatim>\<open>text.split()\<close>: the maximal runs of non-whitespace.\<close>

function split_words :: "str \<Rightarrow> str list" where
  "split_words text =
     (case dropWhile is_space text of
        [] \<Rightarrow> []
      | c # cs \<Rightarrow> takeWhile (\<lambda>x. \<not> is_space x) (c # cs)
                 # split_words (dropWhile (\<lambda>x. \<not> is_space x) cs))"
  by pat_completeness auto
termination
proof (relation "measure length", goal_cases)
  case 1
  show ?case by simp
next
  case (2 s c cs)
  have "length (dropWhile (\<lambda>x. \<not> is_space x) cs) \<le> length cs"
    by (rule length_dropWhile_le)
  moreover have "length (dropWhile is_space s) \<le> length s"
    by (rule length_dropWhile_le)
  ultimately show ?case using 2 by simp
qed

declare split_words.simps [simp del]

text \<open>\<^verbatim>\<open>sep.join(parts)\<close>\<close>

fun join :: "str \<Rightarrow> str list \<Rightarrow> str" where
  "join sep [] = []"
| "join sep [p] = p"
| "join sep (p # q # ps) = p @ sep @ join sep (q # ps)"

section \<open>Errors\<close>

text \<open>
  The exceptions the code can raise or name in a handler, as values. \<open>OSError\<close> is the
  class Python also calls \<^verbatim>\<open>IOError\<close>. \<open>OtherException\<close> stands for any other subclass
  of \<^verbatim>\<open>Exception\<close>, \<open>NotAnException\<close> for a \<^verbatim>\<open>BaseException\<close> outside \<^verbatim>\<open>Exception\<close>
  (\<^verbatim>\<open>KeyboardInterrupt\<close>, \<^verbatim>\<open>SystemExit\<close>). \<open>UnmodelledPattern\<close> is no exception: it
  marks a section title holding a regular-expression metacharacter, whose pattern is
  outside the fragment of \<^verbatim>\<open>re\<close> embedded here.
\<close>

datatype error =
    KeyError | IndexError | UnboundLocalError | ReError
  | FileNotFoundError | PermissionError | OSError | ValueError
  | OtherException | NotAnException | UnmodelledPattern

definition list_get :: "'a list \<Rightarrow> nat \<Rightarrow> error + 'a" where
  "list_get xs i = (if i < length xs then Inr (xs ! i) else Inl IndexError)"

section \<open>Table of contents\<close>

record document =
  pages :: "str list"
  title :: str

definition is_chapter_line :: "str \<Rightarrow> bool" where
  "is_chapter_line line \<longleftrightarrow> contains (str_of ''CHAPTER'') line"

definition is_digit :: "unicode_tables \<Rightarrow> nat \<Rightarrow> bool" where
  "is_digit u c \<longleftrightarrow> (48 \<le> c \<and> c \<le> 57) \<or> (128 \<le> c \<and> decimal_digit u c)"

definition is_ascii_letter :: "nat \<Rightarrow> bool" where
  "is_ascii_letter c \<longleftrightarrow> (65 \<le> c \<and> c \<le> 90) \<or> (97 \<le> c \<and> c \<le> 122)"

text \<open>
  \<^verbatim>\<open>re.match(r"^\d+\.\s+[A-Za-z].*", s)\<close>: the matched text, if any. Both greedy runs
  are followed by a character outside their class, so the longest run is the only
  candidate; \<^verbatim>\<open>.*\<close> stops at the first newline.
\<close>

definition section_match :: "unicode_tables \<Rightarrow> str \<Rightarrow> str option" where
  "section_match u s =
     (case dropWhile (is_digit u) s of
        [] \<Rightarrow> None
      | d # r2 \<Rightarrow>
          if takeWhile (is_digit u) s = [] \<or> d \<noteq> 46 then None
          else (case dropWhile is_space r2 of
                  [] \<Rightarrow> None
                | c # r4 \<Rightarrow>
                    if takeWhile is_space r2 = [] \<or> \<not> is_ascii_letter c then None
                    else Some (takeWhile (is_digit u) s @ [46] @ takeWhile is_space r2
                               @ [c] @ takeWhile (\<lambda>x. x \<noteq> 10) r4)))"

definition is_section_line :: "unicode_tables \<Rightarrow> str \<Rightarrow> bool" where
  "is_section_line u line \<longleftrightarrow> section_match u (strip line) \<noteq> None"

text \<open>
  \<open>chapters_sections\<close> is a Python dict: an association list in insertion order, where
  storing under a key already present keeps its place (\<open>AList.update\<close>). The method
  mutates the dict and returns the chapter; the model returns both.
\<close>

definition process_toc_line ::
  "unicode_tables \<Rightarrow> str \<Rightarrow> str \<Rightarrow> (str \<times> str list) list
     \<Rightarrow> error + (str \<times> (str \<times> str list) list)" where
  "process_toc_line u line current_chapter chapters_sections =
     (if is_chapter_line line
      then Inr (strip line, AList.update (strip line) [] chapters_sections)
      else if is_section_line u line
      then (case section_match u (strip line) of
              None \<Rightarrow> Inr (current_chapter, chapters_sections)
            | Some section \<Rightarrow>
                (case map_of chapters_sections current_chapter of
                   None \<Rightarrow> Inl KeyError
                 | Some secs \<Rightarrow>
                     Inr (current_chapter,
                          AList.update current_chapter (secs @ [clean_text u section])
                            chapters_sections)))
      else Inr (current_chapter, chapters_sections))"

record toc_state =
  chapters_sections :: "(str \<times> str list) list"
  current_chapter :: str
  toc_found :: bool
  last_page :: nat

text \<open>\<^verbatim>\<open>for line in text.split('\n'): current_chapter = self.process_toc_line(...)\<close>\<close>

fun toc_lines ::
  "unicode_tables \<Rightarrow> str list \<Rightarrow> str \<Rightarrow> (str \<times> str list) list
     \<Rightarrow> error + (str \<times> (str \<times> str list) list)" where
  "toc_lines u [] cur cs = Inr (cur, cs)"
| "toc_lines u (line # rest) cur cs =
     (case process_toc_line u line cur cs of
        Inl e \<Rightarrow> Inl e
      | Inr (cur', cs') \<Rightarrow> toc_lines u rest cur' cs')"

definition marker :: str where
  "marker = str_of ''ARRANGEMENT OF SECTIONS''"

text \<open>
  \<^verbatim>\<open>for page in self.doc\<close>, from the page numbered \<open>n\<close> on; \<open>n\<close> is \<^verbatim>\<open>page.number\<close>.
  The \<^verbatim>\<open>break\<close> returns the state as it is, \<open>last_page\<close> already assigned.
\<close>

fun toc_pages ::
  "unicode_tables \<Rightarrow> str \<Rightarrow> nat \<Rightarrow> str list \<Rightarrow> toc_state \<Rightarrow> error + toc_state" where
  "toc_pages u ttl n [] st = Inr st"
| "toc_pages u ttl n (raw # rest) st =
     (let first_page = contains marker raw;
          found = (toc_found st \<or> first_page)
      in case (if first_page then list_get (split_str marker raw) 1 else Inr raw) of
           Inl e \<Rightarrow> Inl e
         | Inr text \<Rightarrow>
             if found
             then (if contains ttl text \<and> \<not> first_page
                   then Inr (st\<lparr>toc_found := found, last_page := n\<rparr>)
                   else (case toc_lines u (split_str [10] text) (current_chapter st)
                                (chapters_sections st) of
                           Inl e \<Rightarrow> Inl e
                         | Inr (cur, cs) \<Rightarrow>
                             toc_pages u ttl (Suc n) rest
                               (st\<lparr>chapters_sections := cs, current_chapter := cur,
                                   toc_found := found, last_page := n\<rparr>)))
             else toc_pages u ttl (Suc n) rest (st\<lparr>last_page := n\<rparr>))"

definition extract_table_of_contents ::
  "unicode_tables \<Rightarrow> document \<Rightarrow> error + ((str \<times> str list) list \<times> nat)" where
  "extract_table_of_contents u doc =
     (case toc_pages u (title doc) 0 (pages doc)
             \<lparr>chapters_sections = [], current_chapter = [], toc_found = False,
              last_page = 0\<rparr> of
        Inl e \<Rightarrow> Inl e
      | Inr st \<Rightarrow> Inr (chapters_sections st, last_page st))"

section \<open>Section patterns\<close>

text \<open>
  \<^verbatim>\<open>compile_section_pattern\<close> builds the text of a regular expression and compiles it
  with \<^verbatim>\<open>re.DOTALL\<close>. \<open>section_pattern\<close> is that text: each word of the title followed
  by \<^verbatim>\<open>s?\<close>, or by \<^verbatim>\<open>?\<close> when it ends in s, the words joined by \<^verbatim>\<open>\s\<close>, then
  \<^verbatim>\<open>(.*?)(?=\f|\Z)\<close>. The backslash is the code point 92.
\<close>

definition pluralized_word :: "str \<Rightarrow> str" where
  "pluralized_word word =
     (if \<not> (word \<noteq> [] \<and> last word = 115) then word @ str_of ''s?''
      else word @ str_of ''?'')"

definition pattern_tail :: str where
  "pattern_tail = str_of ''(.*?)(?='' @ [92] @ str_of ''f|'' @ [92] @ str_of ''Z)''"

definition section_pattern :: "str \<Rightarrow> str" where
  "section_pattern section =
     join [92, 115] (map pluralized_word (split_words section)) @ pattern_tail"

text \<open>
  The fragment of \<^verbatim>\<open>re\<close> those texts need when no word holds a metacharacter: a
  sequence of literal characters, optional characters \<^verbatim>\<open>c?\<close> and \<^verbatim>\<open>\s\<close>, closed by the
  tail, which under \<^verbatim>\<open>DOTALL\<close> matches at every position (lazily up to a form feed or
  the end of the text). \<open>re_compile\<close> gives \<open>None\<close> on any other text.
\<close>

datatype re_item = Lit nat | Opt nat | Space

definition is_meta :: "nat \<Rightarrow> bool" where
  "is_meta c \<longleftrightarrow> c \<in> set (str_of ''.^$*+?{}[]|()'') \<or> c = 92"

fun parse_items :: "str \<Rightarrow> re_item list option" where
  "parse_items [] = Some []"
| "parse_items (c # r) =
     (if c = 92
      then (case r of
              [] \<Rightarrow> None
            | d # r' \<Rightarrow> if d = 115 then map_option (Cons Space) (parse_items r') else None)
      else if is_meta c then None
      else (case r of
              [] \<Rightarrow> Some [Lit c]
            | q # r' \<Rightarrow>
                if q = 63 then map_option (Cons (Opt c)) (parse_items r')
                else map_option (Cons (Lit c)) (parse_items (q # r'))))"

definition re_compile :: "str \<Rightarrow> re_item list option" where
  "re_compile p =
     (if drop (length p - length pattern_tail) p = pattern_tail
      then parse_items (take (length p - length pattern_tail) p)
      else None)"

definition compile_section_pattern :: "str \<Rightarrow> re_item list option" where
  "compile_section_pattern section = re_compile (section_pattern section)"

text \<open>
  Whether the pattern matches at the head of the text: a backtracking matcher finds a
  match exactly when some choice for the optional characters gives one.
\<close>

fun match_items :: "re_item list \<Rightarrow> str \<Rightarrow> bool" where
  "match_items [] t \<longleftrightarrow> True"
| "match_items (Lit c # r) t \<longleftrightarrow> (case t of [] \<Rightarrow> False | x # t' \<Rightarrow> x = c \<and> match_items r t')"
| "match_items (Opt c # r) t \<longleftrightarrow>
     (case t of [] \<Rightarrow> False | x # t' \<Rightarrow> x = c \<and> match_items r t') \<or> match_items r t"
| "match_items (Space # r) t \<longleftrightarrow>
     (case t of [] \<Rightarrow> False | x # t' \<Rightarrow> is_space x \<and> match_items r t')"

text \<open>\<^verbatim>\<open>pattern.search(text)\<close>: the start of the leftmost match, \<^verbatim>\<open>next_match.start()\<close>.\<close>

fun search :: "re_item list \<Rightarrow> str \<Rightarrow> nat option" where
  "search p [] = (if match_items p [] then Some 0 else None)"
| "search p (c # cs) =
     (if match_items p (c # cs) then Some 0 else map_option Suc (search p cs))"

section \<open>Section contents\<close>

record scan_state =
  formatted_data :: "(str \<times> str) list"
  current_section_index :: nat
  current_section_text :: str

text \<open>
  One pass through the body of the \<^verbatim>\<open>while\<close> loop, on the state and the variable
  \<^verbatim>\<open>text\<close>; the third component of the result is \<^verbatim>\<open>page_processed\<close>.
\<close>

definition while_body ::
  "str list \<Rightarrow> re_item list list \<Rightarrow> scan_state \<Rightarrow> str
     \<Rightarrow> error + (scan_state \<times> str \<times> bool)" where
  "while_body sections section_patterns s text =
     (case list_get section_patterns (current_section_index s + 1) of
        Inl e \<Rightarrow> Inl e
      | Inr next_section_pattern \<Rightarrow>
          (case search next_section_pattern text of
             Some start \<Rightarrow>
               (case list_get sections (current_section_index s) of
                  Inl e \<Rightarrow> Inl e
                | Inr key \<Rightarrow>
                    Inr (s\<lparr>formatted_data :=
                             AList.update key
                               (current_section_text s @ strip (take start text))
                               (formatted_data s),
                           current_section_index := current_section_index s + 1,
                           current_section_text := []\<rparr>,
                         drop start text, False))
           | None \<Rightarrow>
               Inr (s\<lparr>current_section_text := current_section_text s @ text\<rparr>,
                    text, True)))"

text \<open>
  \<^verbatim>\<open>while current_section_index < len(sections) - 1 and not page_processed\<close>, entered
  with \<^verbatim>\<open>page_processed = False\<close>.
\<close>

function scan_page ::
  "str list \<Rightarrow> re_item list list \<Rightarrow> scan_state \<Rightarrow> str \<Rightarrow> error + (scan_state \<times> str)" where
  "scan_page sections section_patterns s text =
     (if int (current_section_index s) < int (length sections) - 1
      then (case while_body sections section_patterns s text of
              Inl e \<Rightarrow> Inl e
            | Inr (s', text', page_processed) \<Rightarrow>
                if page_processed then Inr (s', text')
                else scan_page sections section_patterns s' text')
      else Inr (s, text))"
  by pat_completeness auto
termination
  by (relation "measure (\<lambda>(sections, ps, s, t). length sections - current_section_index s)")
     (auto simp: while_body_def split: sum.splits option.splits)

declare scan_page.simps [simp del]

text \<open>
  \<^verbatim>\<open>for page_num in range(start_page, len(self.doc))\<close> over the pages still to visit.
  The variable \<^verbatim>\<open>text\<close> is unbound (\<open>None\<close>) until the first page is read.
\<close>

fun scan_pages ::
  "unicode_tables \<Rightarrow> str list \<Rightarrow> re_item list list \<Rightarrow> str list
     \<Rightarrow> scan_state \<times> str option \<Rightarrow> error + (scan_state \<times> str option)" where
  "scan_pages u sections section_patterns [] st = Inr st"
| "scan_pages u sections section_patterns (raw # rest) (s, t) =
     (case scan_page sections section_patterns s (clean_text u raw) of
        Inl e \<Rightarrow> Inl e
      | Inr (s', text') \<Rightarrow> scan_pages u sections section_patterns rest (s', Some text'))"

text \<open>
  The list comprehension compiles every pattern first. The final assignment reads
  \<^verbatim>\<open>text\<close> (its right-hand side) before it indexes \<^verbatim>\<open>sections\<close>.
\<close>

definition extract_section_content ::
  "unicode_tables \<Rightarrow> document \<Rightarrow> nat \<Rightarrow> str list \<Rightarrow> error + (str \<times> str) list" where
  "extract_section_content u doc start_page sections =
     (case those (map compile_section_pattern sections) of
        None \<Rightarrow> Inl UnmodelledPattern
      | Some section_patterns \<Rightarrow>
          (case scan_pages u sections section_patterns (drop start_page (pages doc))
                  (\<lparr>formatted_data = [], current_section_index = 0,
                    current_section_text = []\<rparr>, None) of
             Inl e \<Rightarrow> Inl e
           | Inr (s, t) \<Rightarrow>
               (case t of
                  None \<Rightarrow> Inl UnboundLocalError
                | Some text \<Rightarrow>
                    (case list_get sections (current_section_index s) of
                       Inl e \<Rightarrow> Inl e
                     | Inr key \<Rightarrow> Inr (AList.update key text (formatted_data s))))))"

section \<open>Writing and the top-level operation\<close>

text \<open>
  \<^verbatim>\<open>save_data_to_json\<close> opens the file and dumps the mapping. The file system is not
  part of the program: \<open>fs path data\<close> is the exception the write raises, if any.
\<close>

definition save_data_to_json ::
  "(str \<Rightarrow> (str \<times> str) list \<Rightarrow> error option) \<Rightarrow> (str \<times> str) list \<Rightarrow> str
     \<Rightarrow> error + unit" where
  "save_data_to_json fs data file_path =
     (case fs file_path data of None \<Rightarrow> Inr () | Some e \<Rightarrow> Inl e)"

text \<open>
  What \<^verbatim>\<open>extract_sections_to_json\<close> leaves behind: the file written, one of its four
  diagnostic lines printed, or an exception that no handler took.
\<close>

datatype category = FileError | RegexError | DataProcessingError | UnknownError

datatype outcome =
    Saved str "(str \<times> str) list"
  | Reported category error
  | Propagated error

text \<open>The body of the \<^verbatim>\<open>try\<close> statement.\<close>

definition try_body ::
  "unicode_tables \<Rightarrow> (str \<Rightarrow> (str \<times> str) list \<Rightarrow> error option) \<Rightarrow> document \<Rightarrow> str
     \<Rightarrow> error + (str \<times> str) list" where
  "try_body u fs doc json_path =
     (case extract_table_of_contents u doc of
        Inl e \<Rightarrow> Inl e
      | Inr (toc, end_page) \<Rightarrow>
          (case extract_section_content u doc end_page (concat (map snd toc)) of
             Inl e \<Rightarrow> Inl e
           | Inr data \<Rightarrow>
               (case save_data_to_json fs data json_path of
                  Inl e \<Rightarrow> Inl e
                | Inr _ \<Rightarrow> Inr data)))"

text \<open>
  The \<^verbatim>\<open>except\<close> clauses in their order. \<^verbatim>\<open>FileNotFoundError\<close> and
  \<^verbatim>\<open>PermissionError\<close> are subclasses of \<^verbatim>\<open>OSError\<close>; \<^verbatim>\<open>KeyError\<close> and
  \<^verbatim>\<open>UnboundLocalError\<close> are caught by the last clause only. \<open>UnmodelledPattern\<close>, which
  is no exception, is passed on as it is: the embedding says nothing about that run.
\<close>

definition is_exception :: "error \<Rightarrow> bool" where
  "is_exception e \<longleftrightarrow> e \<noteq> NotAnException \<and> e \<noteq> UnmodelledPattern"

definition except_clauses :: "error \<Rightarrow> outcome" where
  "except_clauses e =
     (if e = FileNotFoundError \<or> e = OSError \<or> e = PermissionError
      then Reported FileError e
      else if e = ReError then Reported RegexError e
      else if e = ValueError \<or> e = IndexError then Reported DataProcessingError e
      else if is_exception e then Reported UnknownError e
      else Propagated e)"

definition extract_sections_to_json ::
  "unicode_tables \<Rightarrow> (str \<Rightarrow> (str \<times> str) list \<Rightarrow> error option) \<Rightarrow> document \<Rightarrow> str
     \<Rightarrow> outcome" where
  "extract_sections_to_json u fs doc json_path =
     (case try_body u fs doc json_path of
        Inr data \<Rightarrow> Saved json_path data
      | Inl e \<Rightarrow> except_clauses e)"

text \<open>
  The tables restricted to ASCII, for evaluating the functions on concrete texts:
  beyond ASCII no code point is changed by \<open>lower_cp\<close>, none is a digit, none is
  cased or case-ignorable; within ASCII the letters are cased and the apostrophe, the
  full stop, the colon, the circumflex and the grave accent are case-ignorable.
\<close>

definition ascii_tables :: unicode_tables where
  "ascii_tables =
     \<lparr>lower_of = (\<lambda>c. [c]), decimal_digit = (\<lambda>c. False),
      cased = (\<lambda>c. (65 \<le> c \<and> c \<le> 90) \<or> (97 \<le> c \<and> c \<le> 122)),
      case_ignorable = (\<lambda>c. c = 39 \<or> c = 46 \<or> c = 58 \<or> c = 94 \<or> c = 96)\<rparr>"

text \<open>A file system on which every write succeeds.\<close>

definition fs_ok :: "str \<Rightarrow> (str \<times> str) list \<Rightarrow> error option" where
  "fs_ok file_path data = None"

section \<open>Normal form of cleaned text\<close>

text \<open>
  A string in which every whitespace character is a space that is not followed by
  another whitespace character.
\<close>

fun single_spaced :: "str \<Rightarrow> bool" where
  "single_spaced [] \<longleftrightarrow> True"
| "single_spaced [c] \<longleftrightarrow> (is_space c \<longrightarrow> c = 32)"
| "single_spaced (c # d # cs) \<longleftrightarrow> (is_space c \<longrightarrow> c = 32 \<and> \<not> is_space d) \<and> single_spaced (d # cs)"


section \<open>Where the table of contents ends\<close>

text \<open>
  The check \<^verbatim>\<open>toc_found and title in text and not first_page\<close> succeeds on the page at
  index \<open>N\<close> of \<open>ps\<close>, when \<^verbatim>\<open>toc_found\<close> has the value \<open>found\<close> before the first page
  of \<open>ps\<close>: the marker was seen on an earlier page, the page itself has no marker, and
  it contains the title.
\<close>

definition break_at :: "str \<Rightarrow> bool \<Rightarrow> str list \<Rightarrow> nat \<Rightarrow> bool" where
  "break_at ttl found ps N \<longleftrightarrow>
     N < length ps \<and> (found \<or> list_ex (contains marker) (take N ps))
     \<and> \<not> contains marker (ps ! N) \<and> contains ttl (ps ! N)"

section \<open>Titles without metacharacters\<close>

definition meta_free :: "str \<Rightarrow> bool" where
  "meta_free t \<longleftrightarrow> list_all (\<lambda>c. \<not> is_meta c) t"


definition titles_meta_free :: "(str \<times> str list) list \<Rightarrow> bool" where
  "titles_meta_free cs \<longleftrightarrow> list_all (\<lambda>(k, secs). list_all meta_free secs) cs"

section \<open>Example documents\<close>

text \<open>
  The three-page document of the end-to-end scenario: a table of contents, then the
  body on two pages, the title on the first of them.
\<close>

definition act_toc_page :: str where
  "act_toc_page =
     str_of ''ARRANGEMENT OF SECTIONS'' @ [10] @ str_of ''CHAPTER I'' @ [10]
       @ str_of ''1. Short title'' @ [10] @ str_of ''2. Interpretation''"

definition act_page_1 :: str where
  "act_page_1 = str_of ''The Act 1. Short title This Act may be cited as X.''"

definition act_page_2 :: str where
  "act_page_2 = str_of ''2. Interpretation In this Act'' @ [8212]"

definition act_doc :: document where
  "act_doc = \<lparr>pages = [act_toc_page, act_page_1, act_page_2], title = str_of ''The Act''\<rparr>"

text \<open>Three titles, their compiled patterns, and one page holding the three sections.\<close>

definition three_sections :: "str list" where
  "three_sections = [str_of ''1 short title'', str_of ''2 interpretation'', str_of ''3 extent'']"

definition three_patterns :: "re_item list list" where
  "three_patterns =
     [[Lit 49, Opt 115, Space, Lit 115, Lit 104, Lit 111, Lit 114, Lit 116, Opt 115, Space,
       Lit 116, Lit 105, Lit 116, Lit 108, Lit 101, Opt 115],
      [Lit 50, Opt 115, Space, Lit 105, Lit 110, Lit 116, Lit 101, Lit 114, Lit 112, Lit 114,
       Lit 101, Lit 116, Lit 97, Lit 116, Lit 105, Lit 111, Lit 110, Opt 115],
      [Lit 51, Opt 115, Space, Lit 101, Lit 120, Lit 116, Lit 101, Lit 110, Lit 116, Opt 115]]"

definition three_page :: str where
  "three_page =
     str_of ''1 short title this act may be cited as x 2 interpretation in this act 3 extent it extends to y''"

text \<open>A file system that refuses every write, and the scanner's initial state.\<close>

definition fs_denied :: "str \<Rightarrow> (str \<times> str) list \<Rightarrow> error option" where
  "fs_denied file_path data = Some PermissionError"

definition scan_start :: scan_state where
  "scan_start = \<lparr>formatted_data = [], current_section_index = 0, current_section_text = []\<rparr>"


section \<open>Evaluation\<close>

lemmas eval_defs =
  str_of_def ascii_tables_def is_space_def characters_to_replace_def translate_def
  lower_cp_def final_sigma_def lower_def strip_def clean_text_def split_words.simps
  list_get_def

lemmas pattern_defs =
  pluralized_word_def pattern_tail_def section_pattern_def is_meta_def re_compile_def
  compile_section_pattern_def

lemmas scan_defs =
  while_body_def scan_page.simps extract_section_content_def

lemmas toc_defs =
  is_chapter_line_def is_digit_def is_ascii_letter_def section_match_def
  is_section_line_def process_toc_line_def marker_def extract_table_of_contents_def
  Let_def

lemmas act_defs = act_doc_def act_toc_page_def act_page_1_def act_page_2_def

lemmas top_defs =
  save_data_to_json_def try_body_def is_exception_def except_clauses_def
  extract_sections_to_json_def fs_ok_def

section \<open>The normalizer\<close>

lemma is_space_32 [simp]: "is_space 32"
  by (simp add: is_space_def)

lemma single_spaced_Cons:
  "single_spaced (c # cs) \<longleftrightarrow>
     (is_space c \<longrightarrow> c = 32 \<and> (cs = [] \<or> \<not> is_space (hd cs))) \<and> single_spaced cs"
  by (cases cs) auto

lemma hd_sub_spaces: "cs \<noteq> [] \<Longrightarrow> \<not> is_space (hd cs) \<Longrightarrow> hd (sub_spaces cs) = hd cs"
  by (cases cs) auto

lemma sub_spaces_Nil_iff [simp]: "sub_spaces cs = [] \<longleftrightarrow> cs = []"
  by (cases cs) auto

lemma dropWhile_hd: "dropWhile P xs \<noteq> [] \<Longrightarrow> \<not> P (hd (dropWhile P xs))"
  using hd_dropWhile by blast

lemma single_spaced_sub_spaces: "single_spaced (sub_spaces z)"
proof (induction z rule: sub_spaces.induct)
  case 1
  show ?case by simp
next
  case (2 c cs)
  show ?case
  proof (cases "is_space c")
    case True
    have "dropWhile is_space cs = [] \<or> \<not> is_space (hd (sub_spaces (dropWhile is_space cs)))"
      by (metis dropWhile_hd hd_sub_spaces)
    with True 2 show ?thesis by (simp add: single_spaced_Cons)
  next
    case False
    with 2 show ?thesis by (simp add: single_spaced_Cons)
  qed
qed

lemma single_spaced_fixed: "single_spaced w \<Longrightarrow> sub_spaces w = w"
proof (induction w rule: single_spaced.induct)
  case 1
  show ?case by simp
next
  case (2 c)
  then show ?case by simp
next
  case (3 c d cs)
  then show ?case by auto
qed

lemma single_spaced_dropWhile: "single_spaced w \<Longrightarrow> single_spaced (dropWhile P w)"
  by (induction w) (auto simp: single_spaced_Cons)

lemma single_spaced_take: "single_spaced w \<Longrightarrow> single_spaced (take n w)"
proof (induction w arbitrary: n)
  case Nil
  show ?case by simp
next
  case (Cons c cs)
  show ?case
  proof (cases n)
    case 0
    then show ?thesis by simp
  next
    case (Suc m)
    have "take m cs = [] \<or> hd (take m cs) = hd cs"
      by (cases m; cases cs) auto
    with Cons Suc show ?thesis by (auto simp: single_spaced_Cons)
  qed
qed

lemma rstrip_take: "rev (dropWhile P (rev w)) = take (length w - length (takeWhile P (rev w))) w"
  by (simp add: dropWhile_eq_drop rev_drop)

lemma single_spaced_strip: "single_spaced w \<Longrightarrow> single_spaced (strip w)"
  unfolding strip_def rstrip_take
  by (intro single_spaced_take single_spaced_dropWhile)

lemma strip_fixed_iff:
  "strip w = w \<longleftrightarrow> (w = [] \<or> (\<not> is_space (hd w) \<and> \<not> is_space (last w)))"
proof (cases "w = []")
  case True
  then show ?thesis by (simp add: strip_def)
next
  case False
  show ?thesis
  proof (cases "is_space (hd w)")
    case True
    with False have "length (dropWhile is_space w) < length w"
      by (cases w) (auto simp: length_dropWhile_le less_Suc_eq_le)
    moreover have "length (strip w) \<le> length (dropWhile is_space w)"
      unfolding strip_def by (metis length_dropWhile_le length_rev)
    ultimately have "strip w \<noteq> w" by auto
    with True False show ?thesis by simp
  next
    case nhd: False
    with False have d: "dropWhile is_space w = w" by (cases w) auto
    show ?thesis
    proof (cases "is_space (last w)")
      case True
      with False have "length (dropWhile is_space (rev w)) < length (rev w)"
        by (cases "rev w") (auto simp: length_dropWhile_le less_Suc_eq_le last_rev hd_rev)
      then have "length (strip w) < length w"
        unfolding strip_def d by simp
      then have "strip w \<noteq> w"
        by auto
      with True False show ?thesis by simp
    next
      case nl: False
      with False have "dropWhile is_space (rev w) = rev w"
        by (cases "rev w") (auto simp: hd_rev)
      with d nhd nl False show ?thesis by (simp add: strip_def)
    qed
  qed
qed
lemma strip_strip: "strip (strip w) = strip w"
proof (cases "strip w = []")
  case True
  have "strip [] = []" by (simp add: strip_def)
  with True show ?thesis by simp
next
  case False
  let ?d = "dropWhile is_space w"
  from False have dne: "?d \<noteq> []"
    unfolding strip_def by (metis dropWhile.simps(1) rev.simps(1))
  have "strip w = take (length ?d - length (takeWhile is_space (rev ?d))) ?d"
    unfolding strip_def by (rule rstrip_take)
  with False have "hd (strip w) = hd ?d"
    by (metis hd_take take_eq_Nil2 gr0I)
  with dne have h: "\<not> is_space (hd (strip w))"
    by (simp add: dropWhile_hd)
  from False have "dropWhile is_space (rev ?d) \<noteq> []" by (simp add: strip_def)
  then have "\<not> is_space (hd (dropWhile is_space (rev ?d)))" by (rule dropWhile_hd)
  moreover from False have "last (strip w) = hd (dropWhile is_space (rev ?d))"
    unfolding strip_def by (simp add: last_rev)
  ultimately have "\<not> is_space (last (strip w))" by simp
  with h show ?thesis by (simp add: strip_fixed_iff)
qed

lemma set_strip: "set (strip w) \<subseteq> set w"
proof -
  have "set (strip w) \<subseteq> set (dropWhile is_space w)"
    unfolding strip_def using set_dropWhileD by fastforce
  also have "\<dots> \<subseteq> set w" using set_dropWhileD by fastforce
  finally show ?thesis .
qed

lemma set_sub_spaces: "set (sub_spaces z) \<subseteq> insert 32 (set z)"
proof (induction z rule: sub_spaces.induct)
  case 1
  show ?case by simp
next
  case (2 c cs)
  have "set (dropWhile is_space cs) \<subseteq> set cs" using set_dropWhileD by fastforce
  with 2 show ?case by auto
qed

lemma translate_fixed: "\<forall>d\<in>set y. \<not> characters_to_replace d \<Longrightarrow> translate y = y"
  by (simp add: translate_def map_idI)

lemma lower_from_no_sigma:
  "931 \<notin> set y \<Longrightarrow> lower_from u before y = concat (map (lower_cp u) y)"
  by (induction y arbitrary: before) auto

lemma lower_fixed: "\<forall>d\<in>set y. d \<noteq> 931 \<and> lower_cp u d = [d] \<Longrightarrow> lower u y = y"
proof -
  assume a: "\<forall>d\<in>set y. d \<noteq> 931 \<and> lower_cp u d = [d]"
  then have "931 \<notin> set y" by blast
  then have "lower u y = concat (map (lower_cp u) y)"
    unfolding lower_def by (rule lower_from_no_sigma)
  also from a have "\<dots> = y" by (induction y) auto
  finally show ?thesis .
qed

lemma set_lower_from:
  "d \<in> set (lower_from u before y)
     \<Longrightarrow> d = 962 \<or> d = 963 \<or> (\<exists>c\<in>set y. c \<noteq> 931 \<and> d \<in> set (lower_cp u c))"
  by (induction y arbitrary: before) (auto split: if_splits)

lemma set_translate: "d \<in> set (translate x) \<Longrightarrow> \<not> characters_to_replace d"
  by (auto simp: translate_def characters_to_replace_def split: if_splits)

lemma lower_cp_ascii:
  assumes "c < 128" and "\<not> characters_to_replace c" and "d \<in> set (lower_cp u c)"
  shows "\<not> characters_to_replace d \<and> d \<noteq> 931 \<and> lower_cp u d = [d]"
  using assms by (auto simp: lower_cp_def characters_to_replace_def split: if_splits)

lemma set_lower_translate:
  assumes H: "\<forall>c d. 128 \<le> c \<and> c \<noteq> 931 \<and> \<not> characters_to_replace c
                  \<and> d \<in> set (lower_of u c)
                \<longrightarrow> \<not> characters_to_replace d \<and> d \<noteq> 931 \<and> lower_cp u d = [d]"
    and S: "lower_of u 962 = [962] \<and> lower_of u 963 = [963]"
    and d: "d \<in> set (lower u (translate x))"
  shows "\<not> characters_to_replace d \<and> d \<noteq> 931 \<and> lower_cp u d = [d]"
proof -
  from d have "d = 962 \<or> d = 963 \<or> (\<exists>c\<in>set (translate x). c \<noteq> 931 \<and> d \<in> set (lower_cp u c))"
    unfolding lower_def by (rule set_lower_from)
  then show ?thesis
  proof (elim disjE bexE conjE)
    assume e: "d = 962"
    from S have "lower_cp u 962 = [962]" by (simp add: lower_cp_def)
    then show ?thesis unfolding e by (simp add: characters_to_replace_def)
  next
    assume e: "d = 963"
    from S have "lower_cp u 963 = [963]" by (simp add: lower_cp_def)
    then show ?thesis unfolding e by (simp add: characters_to_replace_def)
  next
    fix c
    assume c: "c \<in> set (translate x)" and ns: "c \<noteq> 931"
      and dc: "d \<in> set (lower_cp u c)"
    from c have nc: "\<not> characters_to_replace c" by (rule set_translate)
    show ?thesis
    proof (cases "c < 128")
      case True
      then show ?thesis using nc dc by (rule lower_cp_ascii)
    next
      case False
      with dc have "d \<in> set (lower_of u c)" by (simp add: lower_cp_def)
      moreover from False have "128 \<le> c" by simp
      ultimately show ?thesis using H nc ns by blast
    qed
  qed
qed

lemma clean_text_chars:
  assumes H: "\<forall>c d. 128 \<le> c \<and> c \<noteq> 931 \<and> \<not> characters_to_replace c
                  \<and> d \<in> set (lower_of u c)
                \<longrightarrow> \<not> characters_to_replace d \<and> d \<noteq> 931 \<and> lower_cp u d = [d]"
    and S: "lower_of u 962 = [962] \<and> lower_of u 963 = [963]"
    and d: "d \<in> set (clean_text u x)"
  shows "\<not> characters_to_replace d \<and> d \<noteq> 931 \<and> lower_cp u d = [d]"
proof -
  from d have "d \<in> insert 32 (set (lower u (translate x)))"
    unfolding clean_text_def using set_strip set_sub_spaces by blast
  then show ?thesis
  proof
    assume "d = 32"
    then show ?thesis by (simp add: characters_to_replace_def lower_cp_def)
  next
    assume "d \<in> set (lower u (translate x))"
    with H S show ?thesis by (rule set_lower_translate)
  qed
qed

lemma clean_text_normal:
  "sub_spaces (clean_text u x) = clean_text u x \<and> strip (clean_text u x) = clean_text u x"
  unfolding clean_text_def
  by (simp add: strip_strip single_spaced_fixed single_spaced_strip single_spaced_sub_spaces)

text \<open>
  C7. \<^verbatim>\<open>clean_text\<close> is idempotent, \<open>clean_text (clean_text x) = clean_text x\<close> for every
  string \<open>x\<close>, and the empty string is cleaned to the empty string. The hypotheses
  are on the lowercase table beyond ASCII, which the repository does not hold:
  lowering a character that is not replaced (the capital sigma apart, which has its
  own rule) gives characters that are not replaced, that are not the capital sigma
  and that lowering leaves alone, and the two small sigmas are left alone.
\<close>

theorem clean_text_idempotent:
  assumes "\<forall>c d. 128 \<le> c \<and> c \<noteq> 931 \<and> \<not> characters_to_replace c
               \<and> d \<in> set (lower_of u c)
             \<longrightarrow> \<not> characters_to_replace d \<and> d \<noteq> 931 \<and> lower_cp u d = [d]"
    and "lower_of u 962 = [962] \<and> lower_of u 963 = [963]"
  shows "clean_text u (clean_text u x) = clean_text u x \<and> clean_text u [] = []"
proof -
  let ?y = "clean_text u x"
  have c: "\<forall>d\<in>set ?y. \<not> characters_to_replace d \<and> d \<noteq> 931 \<and> lower_cp u d = [d]"
    using clean_text_chars [OF assms(1) assms(2)] by blast
  then have "translate ?y = ?y" by (simp add: translate_fixed)
  moreover from c have "lower u ?y = ?y" by (simp add: lower_fixed)
  ultimately have "clean_text u ?y = strip (sub_spaces ?y)"
    by (simp add: clean_text_def [of u ?y])
  also have "\<dots> = ?y" by (simp add: clean_text_normal)
  finally have "clean_text u ?y = ?y" .
  moreover have "clean_text u [] = []"
    by (simp add: clean_text_def translate_def lower_def strip_def)
  ultimately show ?thesis by simp
qed

text \<open>
  An instance: texts with a capital letter, a double space, punctuation and a capital
  sigma, lowered to the small sigma after a space and to the final sigma after a
  cased letter.
\<close>

theorem clean_text_idempotent_witness:
  "clean_text ascii_tables (clean_text ascii_tables (str_of ''Arrest  of Person.'' @ [931]))
     = clean_text ascii_tables (str_of ''Arrest  of Person.'' @ [931])
   \<and> clean_text ascii_tables (str_of ''Arrest  of Person.'' @ [931])
       = str_of ''arrest of person '' @ [963]
   \<and> clean_text ascii_tables (str_of ''Arrest  of Persons'' @ [931, 46])
       = str_of ''arrest of persons'' @ [962]
   \<and> clean_text ascii_tables [] = []"
proof -
  have h: "\<forall>c d. 128 \<le> c \<and> c \<noteq> 931 \<and> \<not> characters_to_replace c
               \<and> d \<in> set (lower_of ascii_tables c)
             \<longrightarrow> \<not> characters_to_replace d \<and> d \<noteq> 931 \<and> lower_cp ascii_tables d = [d]"
    by (simp add: ascii_tables_def lower_cp_def)
  have s: "lower_of ascii_tables 962 = [962] \<and> lower_of ascii_tables 963 = [963]"
    by (simp add: ascii_tables_def)
  have "clean_text ascii_tables (str_of ''Arrest  of Person.'' @ [931])
          = str_of ''arrest of person '' @ [963]"
    by (simp add: eval_defs)
  moreover have "clean_text ascii_tables (str_of ''Arrest  of Persons'' @ [931, 46])
          = str_of ''arrest of persons'' @ [962]"
    by (simp add: eval_defs)
  ultimately show ?thesis
    using clean_text_idempotent [OF h s, of "str_of ''Arrest  of Person.'' @ [931]"]
    by simp
qed

section \<open>Lines of the table of contents\<close>

text \<open>
  C8, as amended. A section line (after trimming: digits, a period, whitespace, a
  letter) that does not hold the word CHAPTER raises \<^verbatim>\<open>KeyError\<close> in
  \<^verbatim>\<open>process_toc_line\<close> when no chapter line has been seen: the current chapter is the
  initial empty string and the dictionary is empty. The same holds whenever the
  current chapter is not a key of the dictionary.
\<close>

theorem section_line_without_chapter:
  assumes "is_section_line u line" and "\<not> is_chapter_line line"
  shows "process_toc_line u line [] [] = Inl KeyError
         \<and> (map_of cs cur = None \<longrightarrow> process_toc_line u line cur cs = Inl KeyError)"
  using assms by (auto simp: process_toc_line_def is_section_line_def)

theorem section_line_without_chapter_witness:
  "is_section_line ascii_tables (str_of ''1. Short title'')
   \<and> \<not> is_chapter_line (str_of ''1. Short title'')
   \<and> process_toc_line ascii_tables (str_of ''1. Short title'') [] [] = Inl KeyError"
proof -
  have a: "is_section_line ascii_tables (str_of ''1. Short title'')"
    by (simp add: eval_defs toc_defs)
  have b: "\<not> is_chapter_line (str_of ''1. Short title'')"
    by (simp add: eval_defs toc_defs)
  from section_line_without_chapter [OF a b] a b show ?thesis by simp
qed

text \<open>
  C8 as stated fails for a line that matches the section pattern and holds the word
  CHAPTER: the first branch takes it, a chapter is opened and nothing is raised.
\<close>

theorem section_line_with_chapter_counterexample:
  "is_section_line ascii_tables (str_of ''1. CHAPTER of x'')
   \<and> process_toc_line ascii_tables (str_of ''1. CHAPTER of x'') [] []
       = Inr (str_of ''1. CHAPTER of x'', [(str_of ''1. CHAPTER of x'', [])])"
  by (simp add: eval_defs toc_defs)

section \<open>An empty section list\<close>

lemma scan_page_no_sections: "scan_page [] ps s t = Inr (s, t)"
  by (simp add: scan_page.simps)

lemma scan_pages_no_sections:
  "raws \<noteq> [] \<Longrightarrow> scan_pages u [] [] raws (s, t) = Inr (s, Some (clean_text u (last raws)))"
  by (induction raws arbitrary: t) (auto simp: scan_page_no_sections)

lemma extract_no_sections:
  "start_page < length (pages doc) \<Longrightarrow> extract_section_content u doc start_page [] = Inl IndexError"
  by (simp add: extract_section_content_def scan_pages_no_sections list_get_def)

lemma toc_pages_no_marker:
  assumes "\<forall>p\<in>set ps. \<not> contains marker p" and "\<not> toc_found st" and "ps \<noteq> []"
  shows "toc_pages u ttl n ps st = Inr (st\<lparr>last_page := n + length ps - 1\<rparr>)"
  using assms
proof (induction ps arbitrary: n st)
  case Nil
  then show ?case by simp
next
  case (Cons raw rest)
  show ?case
  proof (cases "rest = []")
    case True
    with Cons.prems show ?thesis by simp
  next
    case False
    with Cons.prems have
      "toc_pages u ttl (Suc n) rest (st\<lparr>last_page := n\<rparr>)
         = Inr (st\<lparr>last_page := n, last_page := Suc n + length rest - 1\<rparr>)"
      by (intro Cons.IH) auto
    with Cons.prems show ?thesis by simp
  qed
qed

lemma toc_no_marker:
  assumes "\<forall>p\<in>set (pages doc). \<not> contains marker p" and "pages doc \<noteq> []"
  shows "extract_table_of_contents u doc = Inr ([], length (pages doc) - 1)"
  using toc_pages_no_marker [OF assms(1) _ assms(2), of _ u "title doc" 0]
  by (simp add: extract_table_of_contents_def)

text \<open>
  C10, as amended. With an empty section list and a start page below the page count,
  \<^verbatim>\<open>extract_section_content\<close> raises \<^verbatim>\<open>IndexError\<close> at the final assignment; for a
  document that has pages, none of them with the marker, the top-level operation
  reports it as a data-processing error.
\<close>

theorem empty_sections_index_error:
  "(start_page < length (pages doc)
      \<longrightarrow> extract_section_content u doc start_page [] = Inl IndexError)
   \<and> (pages doc \<noteq> [] \<and> (\<forall>p\<in>set (pages doc). \<not> contains marker p)
      \<longrightarrow> extract_sections_to_json u fs doc json_path
            = Reported DataProcessingError IndexError)"
proof (intro conjI impI)
  assume "start_page < length (pages doc)"
  then show "extract_section_content u doc start_page [] = Inl IndexError"
    by (rule extract_no_sections)
next
  assume a: "pages doc \<noteq> [] \<and> (\<forall>p\<in>set (pages doc). \<not> contains marker p)"
  then have "extract_table_of_contents u doc = Inr ([], length (pages doc) - 1)"
    by (simp add: toc_no_marker)
  moreover from a have "extract_section_content u doc (length (pages doc) - 1) [] = Inl IndexError"
    by (intro extract_no_sections) simp
  ultimately show "extract_sections_to_json u fs doc json_path
            = Reported DataProcessingError IndexError"
    by (simp add: extract_sections_to_json_def try_body_def except_clauses_def)
qed

theorem empty_sections_index_error_witness:
  "(0::nat) < length (pages \<lparr>pages = [str_of ''Preamble''], title = str_of ''The Act''\<rparr>)
   \<and> extract_section_content ascii_tables
        \<lparr>pages = [str_of ''Preamble''], title = str_of ''The Act''\<rparr> 0 [] = Inl IndexError
   \<and> extract_sections_to_json ascii_tables fs_ok
        \<lparr>pages = [str_of ''Preamble''], title = str_of ''The Act''\<rparr> (str_of ''out.json'')
       = Reported DataProcessingError IndexError"
  using empty_sections_index_error
          [of 0 "\<lparr>pages = [str_of ''Preamble''], title = str_of ''The Act''\<rparr>"
              ascii_tables fs_ok "str_of ''out.json''"]
  by (simp add: str_of_def marker_def)

text \<open>
  C10 as stated, for every start page, fails when no page is scanned: the final
  assignment reads \<^verbatim>\<open>text\<close> first, which is unbound, and the top-level operation
  reports an unknown error for a document without pages.
\<close>

theorem empty_sections_unbound_counterexample:
  "extract_section_content ascii_tables
     \<lparr>pages = [str_of ''Preamble''], title = str_of ''The Act''\<rparr> 1 [] = Inl UnboundLocalError
   \<and> extract_sections_to_json ascii_tables fs_ok \<lparr>pages = [], title = str_of ''The Act''\<rparr>
       (str_of ''out.json'') = Reported UnknownError UnboundLocalError"
  by (simp add: eval_defs pattern_defs scan_defs toc_defs top_defs)


section \<open>The pattern of a title\<close>

lemma compile_arrest_of_person:
  "compile_section_pattern (str_of ''arrest of person'') =
     Some [Lit 97, Lit 114, Lit 114, Lit 101, Lit 115, Lit 116, Opt 115, Space,
           Lit 111, Lit 102, Opt 115, Space,
           Lit 112, Lit 101, Lit 114, Lit 115, Lit 111, Lit 110, Opt 115]"
  by (simp add: eval_defs pattern_defs)

lemma search_zero: "search p t = Some 0 \<longleftrightarrow> match_items p t"
  by (cases t) auto

lemma match_Lits:
  "match_items (map Lit w @ r) t \<longleftrightarrow> (\<exists>t'. t = w @ t' \<and> match_items r t')"
proof (induction w arbitrary: t)
  case Nil
  show ?case by simp
next
  case (Cons c w)
  show ?case by (cases t) (auto simp: Cons.IH)
qed

lemma match_Opt_Space:
  "match_items (Opt c # Space # r) t \<longleftrightarrow>
     (\<exists>a w t'. (a = [] \<or> a = [c]) \<and> is_space w \<and> t = a @ w # t' \<and> match_items r t')"
proof (cases t)
  case Nil
  then show ?thesis by simp
next
  case (Cons x t1)
  show ?thesis
  proof (cases t1)
    case Nil
    with Cons show ?thesis by auto
  next
    case c2: (Cons y t2)
    with Cons show ?thesis by auto
  qed
qed

lemma match_word:
  "match_items (map Lit w @ Opt c # Space # r) t \<longleftrightarrow>
     (\<exists>a sp t'. (a = [] \<or> a = [c]) \<and> is_space sp \<and> t = w @ a @ sp # t' \<and> match_items r t')"
  unfolding match_Lits match_Opt_Space by blast

lemma match_last_word:
  "match_items (map Lit w @ [Opt c]) t \<longleftrightarrow> (\<exists>rest. t = w @ rest)"
  unfolding match_Lits by simp

lemma arrest_items:
  "[Lit 97, Lit 114, Lit 114, Lit 101, Lit 115, Lit 116, Opt 115, Space,
           Lit 111, Lit 102, Opt 115, Space,
           Lit 112, Lit 101, Lit 114, Lit 115, Lit 111, Lit 110, Opt 115]
   = map Lit (str_of ''arrest'') @ Opt 115 # Space
       # map Lit (str_of ''of'') @ Opt 115 # Space # map Lit (str_of ''person'') @ [Opt 115]"
  by (simp add: str_of_def)

lemma arrest_of_person_match:
  "match_items
     [Lit 97, Lit 114, Lit 114, Lit 101, Lit 115, Lit 116, Opt 115, Space,
      Lit 111, Lit 102, Opt 115, Space,
      Lit 112, Lit 101, Lit 114, Lit 115, Lit 111, Lit 110, Opt 115] t
   \<longleftrightarrow> (\<exists>a b w1 w2 rest. (a = [] \<or> a = [115]) \<and> (b = [] \<or> b = [115])
          \<and> is_space w1 \<and> is_space w2
          \<and> t = str_of ''arrest'' @ a @ w1 # str_of ''of'' @ b @ w2 # str_of ''person'' @ rest)"
  unfolding arrest_items match_word match_last_word by blast

text \<open>
  C6. The title "arrest of person" compiles to the three words, each followed by an
  optional s, with one whitespace character between them, and the pattern matches at
  the head of a text exactly when the text starts with "arrest", an optional s, a
  whitespace character, "of", an optional s, a whitespace character and "person"
  (an s after "person" belongs to what follows). So it matches "arrest of person" and
  "arrests of persons", and each s is optional on its own: the texts with one plural
  only match too. It does not match "arrest of people" or "arrest person".
\<close>

theorem arrest_of_person_matches:
  "compile_section_pattern (str_of ''arrest of person'')
     = Some [Lit 97, Lit 114, Lit 114, Lit 101, Lit 115, Lit 116, Opt 115, Space,
             Lit 111, Lit 102, Opt 115, Space,
             Lit 112, Lit 101, Lit 114, Lit 115, Lit 111, Lit 110, Opt 115]
   \<and> (Option.bind (compile_section_pattern (str_of ''arrest of person''))
         (\<lambda>r. search r t) = Some 0
       \<longleftrightarrow> (\<exists>a b w1 w2 rest. (a = [] \<or> a = [115]) \<and> (b = [] \<or> b = [115])
              \<and> is_space w1 \<and> is_space w2
              \<and> t = str_of ''arrest'' @ a @ w1 # str_of ''of'' @ b @ w2
                      # str_of ''person'' @ rest))
   \<and> Option.bind (compile_section_pattern (str_of ''arrest of person''))
       (\<lambda>r. search r (str_of ''arrest of person'')) = Some 0
   \<and> Option.bind (compile_section_pattern (str_of ''arrest of person''))
       (\<lambda>r. search r (str_of ''arrests of persons'')) = Some 0
   \<and> Option.bind (compile_section_pattern (str_of ''arrest of person''))
       (\<lambda>r. search r (str_of ''arrests of person'')) = Some 0
   \<and> Option.bind (compile_section_pattern (str_of ''arrest of person''))
       (\<lambda>r. search r (str_of ''arrest of persons'')) = Some 0
   \<and> Option.bind (compile_section_pattern (str_of ''arrest of person''))
       (\<lambda>r. search r (str_of ''arrest ofs person'')) = Some 0
   \<and> Option.bind (compile_section_pattern (str_of ''arrest of person''))
       (\<lambda>r. search r (str_of ''the arrests of persons'')) = Some 4
   \<and> Option.bind (compile_section_pattern (str_of ''arrest of person''))
       (\<lambda>r. search r (str_of ''arrest of people'')) = None
   \<and> Option.bind (compile_section_pattern (str_of ''arrest of person''))
       (\<lambda>r. search r (str_of ''arrest person'')) = None"
proof -
  let ?items = "[Lit 97, Lit 114, Lit 114, Lit 101, Lit 115, Lit 116, Opt 115, Space,
                 Lit 111, Lit 102, Opt 115, Space,
                 Lit 112, Lit 101, Lit 114, Lit 115, Lit 111, Lit 110, Opt 115]"
  have g: "search ?items t = Some 0
       \<longleftrightarrow> (\<exists>a b w1 w2 rest. (a = [] \<or> a = [115]) \<and> (b = [] \<or> b = [115])
              \<and> is_space w1 \<and> is_space w2
              \<and> t = str_of ''arrest'' @ a @ w1 # str_of ''of'' @ b @ w2
                      # str_of ''person'' @ rest)"
    unfolding search_zero by (rule arrest_of_person_match)
  have p: "search ?items (str_of ''arrest of person'') = Some 0"
      "search ?items (str_of ''arrests of persons'') = Some 0"
      "search ?items (str_of ''arrests of person'') = Some 0"
      "search ?items (str_of ''arrest of persons'') = Some 0"
      "search ?items (str_of ''arrest ofs person'') = Some 0"
      "search ?items (str_of ''the arrests of persons'') = Some 4"
    by (simp_all add: eval_defs)
  have n: "search ?items (str_of ''arrest of people'') = None"
      "search ?items (str_of ''arrest person'') = None"
    by (simp_all add: eval_defs)
  show ?thesis
    unfolding compile_arrest_of_person Option.bind.simps
    using g p n by (intro conjI) (rule refl | assumption)+
qed

section \<open>The last section\<close>

text \<open>
  C1 does not hold of the code: the final assignment stores \<^verbatim>\<open>text\<close>, the rest of the
  last page, and not the accumulator. Here section 2 starts on the first page and runs
  on to the second; its entry is the text of the second page alone.
\<close>

theorem last_section_keeps_final_page_only:
  "extract_section_content ascii_tables
     \<lparr>pages = [str_of ''1. Short title This Act may be cited as X. 2. Interpretation In this Act'',
               str_of ''unless the context otherwise requires''],
      title = str_of ''The Act''\<rparr>
     0 [str_of ''1 short title'', str_of ''2 interpretation'']
   = Inr [(str_of ''1 short title'', str_of ''1 short title this act may be cited as x''),
          (str_of ''2 interpretation'', str_of ''unless the context otherwise requires'')]"
  by (simp add: eval_defs pattern_defs scan_defs)

section \<open>The page on which the table of contents ends\<close>

lemma break_at_0:
  "break_at ttl found (raw # rest) 0 \<longleftrightarrow> found \<and> \<not> contains marker raw \<and> contains ttl raw"
  by (simp add: break_at_def)

lemma break_at_Suc:
  "break_at ttl found (raw # rest) (Suc k) \<longleftrightarrow> break_at ttl (found \<or> contains marker raw) rest k"
  by (auto simp: break_at_def)

lemma toc_pages_step:
  assumes "toc_pages u ttl n (raw # rest) st = Inr st'"
  shows "(toc_found st \<and> \<not> contains marker raw \<and> contains ttl raw \<and> last_page st' = n)
         \<or> (\<not> (toc_found st \<and> \<not> contains marker raw \<and> contains ttl raw)
             \<and> (\<exists>st1. toc_found st1 = (toc_found st \<or> contains marker raw)
                   \<and> last_page st1 = n
                   \<and> toc_pages u ttl (Suc n) rest st1 = Inr st'))"
proof (cases "contains marker raw")
  case True
  with assms show ?thesis
    by (fastforce simp: Let_def split: sum.splits)
next
  case nm: False
  show ?thesis
  proof (cases "toc_found st")
    case True
    with nm assms show ?thesis
      by (fastforce simp: Let_def split: sum.splits if_splits)
  next
    case False
    with nm assms have "toc_pages u ttl (Suc n) rest (st\<lparr>last_page := n\<rparr>) = Inr st'"
      by (simp add: Let_def)
    with nm False show ?thesis
      by (intro disjI2 conjI exI [of _ "st\<lparr>last_page := n\<rparr>"]) auto
  qed
qed

lemma toc_pages_break:
  assumes "toc_pages u ttl n ps st = Inr st'"
    and "break_at ttl (toc_found st) ps k"
    and "\<forall>m<k. \<not> break_at ttl (toc_found st) ps m"
  shows "last_page st' = n + k"
  using assms
proof (induction ps arbitrary: n st k)
  case Nil
  then show ?case by (simp add: break_at_def)
next
  case (Cons raw rest)
  from toc_pages_step [OF Cons.prems(1)] show ?case
  proof (elim disjE conjE exE)
    assume "toc_found st" "\<not> contains marker raw" "contains ttl raw" "last_page st' = n"
    then have "break_at ttl (toc_found st) (raw # rest) 0" by (simp add: break_at_0)
    with Cons.prems(3) have "k = 0" by (cases k) auto
    with \<open>last_page st' = n\<close> show ?thesis by simp
  next
    fix st1
    assume nb: "\<not> (toc_found st \<and> \<not> contains marker raw \<and> contains ttl raw)"
      and f: "toc_found st1 = (toc_found st \<or> contains marker raw)"
      and l: "last_page st1 = n"
      and r: "toc_pages u ttl (Suc n) rest st1 = Inr st'"
    from nb Cons.prems(2) obtain k' where k: "k = Suc k'"
      by (cases k) (auto simp: break_at_0)
    from Cons.prems(2) k f have b: "break_at ttl (toc_found st1) rest k'"
      by (simp add: break_at_Suc)
    have "\<forall>m<k'. \<not> break_at ttl (toc_found st1) rest m"
    proof (intro allI impI)
      fix m assume "m < k'"
      with k have "Suc m < k" by simp
      with Cons.prems(3) have "\<not> break_at ttl (toc_found st) (raw # rest) (Suc m)" by blast
      with f show "\<not> break_at ttl (toc_found st1) rest m" by (simp add: break_at_Suc)
    qed
    with Cons.IH [OF r b] k show ?thesis by simp
  qed
qed

lemma toc_pages_no_break:
  assumes "toc_pages u ttl n ps st = Inr st'"
    and "\<forall>k. \<not> break_at ttl (toc_found st) ps k"
    and "ps \<noteq> []"
  shows "last_page st' = n + length ps - 1"
  using assms
proof (induction ps arbitrary: n st)
  case Nil
  then show ?case by simp
next
  case (Cons raw rest)
  from Cons.prems(2) have nb0: "\<not> break_at ttl (toc_found st) (raw # rest) 0" by blast
  from toc_pages_step [OF Cons.prems(1)] nb0 obtain st1 where
        f: "toc_found st1 = (toc_found st \<or> contains marker raw)"
      and l: "last_page st1 = n"
      and r: "toc_pages u ttl (Suc n) rest st1 = Inr st'"
    by (auto simp: break_at_0)
  show ?case
  proof (cases "rest = []")
    case True
    with r l show ?thesis by simp
  next
    case False
    have "\<forall>k. \<not> break_at ttl (toc_found st1) rest k"
    proof
      fix k
      from Cons.prems(2) have "\<not> break_at ttl (toc_found st) (raw # rest) (Suc k)" by blast
      with f show "\<not> break_at ttl (toc_found st1) rest k" by (simp add: break_at_Suc)
    qed
    with Cons.IH [OF r _ False] show ?thesis by simp
  qed
qed

text \<open>
  C3, as amended. When the termination check first succeeds on page \<open>N\<close>, the returned
  \<open>last_page\<close> is \<open>N\<close> itself, since \<open>last_page\<close> is assigned before the check; when the
  check never succeeds and the document has pages, \<open>last_page\<close> is the index of the
  final page.
\<close>

theorem last_page_is_break_page:
  assumes "extract_table_of_contents u doc = Inr (toc, lp)"
  shows "(break_at (title doc) False (pages doc) N
            \<and> (\<forall>M<N. \<not> break_at (title doc) False (pages doc) M) \<longrightarrow> lp = N)
         \<and> ((\<forall>M. \<not> break_at (title doc) False (pages doc) M) \<and> pages doc \<noteq> []
            \<longrightarrow> lp = length (pages doc) - 1)"
proof -
  let ?st0 = "\<lparr>chapters_sections = [], current_chapter = [], toc_found = False,
              last_page = 0\<rparr>"
  from assms obtain st' where
      r: "toc_pages u (title doc) 0 (pages doc) ?st0 = Inr st'" and lp: "lp = last_page st'"
    by (auto simp: extract_table_of_contents_def split: sum.splits)
  show ?thesis
  proof (intro conjI impI)
    assume "break_at (title doc) False (pages doc) N
            \<and> (\<forall>M<N. \<not> break_at (title doc) False (pages doc) M)"
    with toc_pages_break [OF r, of N] lp show "lp = N" by simp
  next
    assume "(\<forall>M. \<not> break_at (title doc) False (pages doc) M) \<and> pages doc \<noteq> []"
    with toc_pages_no_break [OF r] lp show "lp = length (pages doc) - 1" by simp
  qed
qed

lemma act_doc_toc:
  "extract_table_of_contents ascii_tables act_doc
     = Inr ([(str_of ''CHAPTER I'', [str_of ''1 short title'', str_of ''2 interpretation''])], 1)"
  by (simp add: act_defs eval_defs toc_defs)

lemma act_doc_break: "break_at (title act_doc) False (pages act_doc) 1
  \<and> \<not> break_at (title act_doc) False (pages act_doc) 0"
  by (simp add: act_defs break_at_def str_of_def marker_def)

theorem last_page_is_break_page_witness:
  "extract_table_of_contents ascii_tables act_doc
     = Inr ([(str_of ''CHAPTER I'', [str_of ''1 short title'', str_of ''2 interpretation''])], 1)
   \<and> break_at (title act_doc) False (pages act_doc) 1"
  using last_page_is_break_page [OF act_doc_toc, of 1] act_doc_toc act_doc_break
  by simp

text \<open>
  C3 as stated fails: the check succeeds on page 1 of the example document, not on
  page 0, and the returned \<open>last_page\<close> is 1, not 0.
\<close>

theorem last_page_not_previous_counterexample:
  "break_at (title act_doc) False (pages act_doc) 1
   \<and> \<not> break_at (title act_doc) False (pages act_doc) 0
   \<and> extract_table_of_contents ascii_tables act_doc
       = Inr ([(str_of ''CHAPTER I'', [str_of ''1 short title'', str_of ''2 interpretation''])],
              1)
   \<and> extract_table_of_contents ascii_tables act_doc
       \<noteq> Inr ([(str_of ''CHAPTER I'', [str_of ''1 short title'', str_of ''2 interpretation''])],
              1 - 1)"
  using act_doc_toc act_doc_break by simp

section \<open>The section index\<close>

lemma while_body_ok:
  assumes "int (current_section_index s) < int (length sections) - 1"
    and "length section_patterns = length sections"
  shows "\<exists>s' t' b. while_body sections section_patterns s t = Inr (s', t', b)
           \<and> (current_section_index s' = current_section_index s
                \<or> current_section_index s' = current_section_index s + 1)
           \<and> int (current_section_index s') \<le> int (length sections) - 1"
  using assms by (auto simp: while_body_def list_get_def split: option.splits)

lemma scan_page_ok:
  assumes "length section_patterns = length sections"
    and "int (current_section_index s) \<le> int (length sections) - 1"
  shows "\<exists>s' t'. scan_page sections section_patterns s t = Inr (s', t')
           \<and> current_section_index s \<le> current_section_index s'
           \<and> int (current_section_index s') \<le> int (length sections) - 1"
  using assms
proof (induction sections section_patterns s t rule: scan_page.induct)
  case (1 sections section_patterns s t)
  show ?case
  proof (cases "int (current_section_index s) < int (length sections) - 1")
    case False
    with "1.prems" show ?thesis by (simp add: scan_page.simps)
  next
    case True
    from while_body_ok [OF True "1.prems"(1), of t] obtain s1 t1 b where
        w: "while_body sections section_patterns s t = Inr (s1, t1, b)"
      and m: "current_section_index s1 = current_section_index s
                \<or> current_section_index s1 = current_section_index s + 1"
      and bd: "int (current_section_index s1) \<le> int (length sections) - 1"
      by blast
    show ?thesis
    proof (cases b)
      case True
      with \<open>int (current_section_index s) < int (length sections) - 1\<close> w m bd
      show ?thesis by (auto simp: scan_page.simps)
    next
      case False
      from "1.IH" [OF True w refl refl False "1.prems"(1) bd] obtain s' t' where
          "scan_page sections section_patterns s1 t1 = Inr (s', t')"
          "current_section_index s1 \<le> current_section_index s'"
          "int (current_section_index s') \<le> int (length sections) - 1"
        by blast
      with True w False m show ?thesis
        by (auto simp: scan_page.simps [of sections section_patterns s t])
    qed
  qed
qed

lemma scan_pages_ok:
  assumes "length section_patterns = length sections"
    and "int (current_section_index s) \<le> int (length sections) - 1"
  shows "\<exists>s' t'. scan_pages u sections section_patterns raws (s, t) = Inr (s', t')
           \<and> current_section_index s \<le> current_section_index s'
           \<and> int (current_section_index s') \<le> int (length sections) - 1"
  using assms
proof (induction raws arbitrary: s t)
  case Nil
  then show ?case by simp
next
  case (Cons raw rest)
  from scan_page_ok [OF Cons.prems, of "clean_text u raw"] obtain s1 t1 where
      p: "scan_page sections section_patterns s (clean_text u raw) = Inr (s1, t1)"
    and m: "current_section_index s \<le> current_section_index s1"
    and bd: "int (current_section_index s1) \<le> int (length sections) - 1"
    by blast
  from Cons.IH [OF Cons.prems(1) bd, of "Some t1"] obtain s' t' where
      "scan_pages u sections section_patterns rest (s1, Some t1) = Inr (s', t')"
      "current_section_index s1 \<le> current_section_index s'"
      "int (current_section_index s') \<le> int (length sections) - 1"
    by blast
  with p m show ?case by auto
qed

lemma those_length: "those xs = Some ys \<Longrightarrow> length ys = length xs"
  by (induction xs arbitrary: ys) (auto split: option.splits)

lemma extract_no_index_error:
  assumes "sections \<noteq> []"
  shows "extract_section_content u doc start_page sections \<noteq> Inl IndexError"
proof (cases "those (map compile_section_pattern sections)")
  case None
  then show ?thesis by (simp add: extract_section_content_def)
next
  case (Some ps)
  then have len: "length ps = length sections" by (auto dest: those_length)
  let ?s0 = "\<lparr>formatted_data = [], current_section_index = 0, current_section_text = []\<rparr>"
  from assms have "int (current_section_index ?s0) \<le> int (length sections) - 1"
    by (cases sections) auto
  from scan_pages_ok [OF len this, of u "drop start_page (pages doc)" None] obtain s' t' where
      "scan_pages u sections ps (drop start_page (pages doc)) (?s0, None) = Inr (s', t')"
      "int (current_section_index s') \<le> int (length sections) - 1"
    by blast
  with Some show ?thesis
    by (auto simp: extract_section_content_def list_get_def split: option.splits)
qed

text \<open>
  C5. On a non-empty section list the index only moves forward and stays at most
  \<open>len(sections) - 1\<close>. From any state within that bound: one pass of the loop body
  returns (no list is indexed out of range), leaving the index as it is or adding
  one; the \<^verbatim>\<open>while\<close> loop and the loop over the pages return with an index that is
  not smaller and still within the bound. So \<^verbatim>\<open>extract_section_content\<close>, which
  starts at index 0, never raises \<^verbatim>\<open>IndexError\<close> on a non-empty list.
\<close>

theorem section_index_monotone_bounded:
  assumes "sections \<noteq> []"
  shows "(length section_patterns = length sections
          \<and> int (current_section_index s) \<le> int (length sections) - 1 \<longrightarrow>
            (int (current_section_index s) < int (length sections) - 1 \<longrightarrow>
               (\<exists>s' t' b. while_body sections section_patterns s t = Inr (s', t', b)
                  \<and> (current_section_index s' = current_section_index s
                       \<or> current_section_index s' = current_section_index s + 1)
                  \<and> int (current_section_index s') \<le> int (length sections) - 1))
            \<and> (\<exists>s' t'. scan_page sections section_patterns s t = Inr (s', t')
                  \<and> current_section_index s \<le> current_section_index s'
                  \<and> int (current_section_index s') \<le> int (length sections) - 1)
            \<and> (\<exists>s' t'. scan_pages u sections section_patterns raws (s, t0) = Inr (s', t')
                  \<and> current_section_index s \<le> current_section_index s'
                  \<and> int (current_section_index s') \<le> int (length sections) - 1))
         \<and> extract_section_content u doc start_page sections \<noteq> Inl IndexError"
  using assms while_body_ok scan_page_ok scan_pages_ok extract_no_index_error
  by blast

theorem section_index_monotone_bounded_witness:
  "three_sections \<noteq> []
   \<and> length three_patterns = length three_sections
   \<and> int (current_section_index scan_start) < int (length three_sections) - 1
   \<and> (\<exists>s' t' b. while_body three_sections three_patterns scan_start three_page = Inr (s', t', b)
         \<and> (current_section_index s' = current_section_index scan_start
              \<or> current_section_index s' = current_section_index scan_start + 1)
         \<and> int (current_section_index s') \<le> int (length three_sections) - 1)
   \<and> (\<exists>s' t'. scan_page three_sections three_patterns scan_start three_page = Inr (s', t')
         \<and> int (current_section_index s') \<le> int (length three_sections) - 1)
   \<and> extract_section_content ascii_tables act_doc 1 three_sections \<noteq> Inl IndexError"
proof -
  have a: "three_sections \<noteq> []" by (simp add: three_sections_def)
  have l: "length three_patterns = length three_sections"
    by (simp add: three_patterns_def three_sections_def)
  have g: "int (current_section_index scan_start) < int (length three_sections) - 1"
    by (simp add: scan_start_def three_sections_def)
  from section_index_monotone_bounded
         [OF a, of three_patterns scan_start three_page ascii_tables "[]" None act_doc 1]
       a l g
  show ?thesis by auto
qed

section \<open>Text carried across pages\<close>





lemma scan_page_done:
  "\<not> int (current_section_index s) < int (length sections) - 1
     \<Longrightarrow> scan_page sections section_patterns s t = Inr (s, t)"
  by (subst scan_page.simps) simp

lemma scan_page_step:
  assumes "int (current_section_index s) < int (length sections) - 1"
    and "while_body sections section_patterns s t = Inr (s1, t1, b)"
  shows "scan_page sections section_patterns s t
           = (if b then Inr (s1, t1) else scan_page sections section_patterns s1 t1)"
  using assms by (subst scan_page.simps) simp

lemma scan_page_error:
  assumes "int (current_section_index s) < int (length sections) - 1"
    and "while_body sections section_patterns s t = Inl e"
  shows "scan_page sections section_patterns s t = Inl e"
  using assms by (subst scan_page.simps) simp








section \<open>Three sections on one page\<close>

lemma search_sound: "search p t = Some k \<Longrightarrow> k \<le> length t \<and> match_items p (drop k t)"
proof (induction t arbitrary: k)
  case Nil
  then show ?case by (simp split: if_splits)
next
  case (Cons c cs)
  show ?case
  proof (cases "match_items p (c # cs)")
    case True
    with Cons.prems show ?thesis by simp
  next
    case False
    with Cons.prems obtain k' where "search p cs = Some k'" "k = Suc k'" by auto
    with Cons.IH show ?thesis by simp
  qed
qed

text \<open>
  The slices of one page for three sections: with the pattern of \<open>S2\<close> first found at
  \<open>k2\<close> and, from there on, the pattern of \<open>S3\<close> at \<open>k3\<close>, the result maps \<open>S1\<close> to
  the trimmed text before \<open>k2\<close>, \<open>S2\<close> to the trimmed text from \<open>k2\<close> up to the match
  of \<open>S3\<close>, and \<open>S3\<close> to the rest.
\<close>

lemma three_sections_slices:
  assumes "compile_section_pattern S1 = Some p1"
    and "compile_section_pattern S2 = Some p2"
    and "compile_section_pattern S3 = Some p3"
    and "search p2 (clean_text u raw) = Some k2"
    and "search p3 (drop k2 (clean_text u raw)) = Some k3"
  shows "extract_section_content u \<lparr>pages = [raw], title = ttl\<rparr> 0 [S1, S2, S3]
           = Inr (AList.update S3 (drop k3 (drop k2 (clean_text u raw)))
                   (AList.update S2 (strip (take k3 (drop k2 (clean_text u raw))))
                     [(S1, strip (take k2 (clean_text u raw)))]))
         \<and> match_items p2 (drop k2 (clean_text u raw))
         \<and> match_items p3 (drop k3 (drop k2 (clean_text u raw)))"
proof -
  let ?T = "clean_text u raw"
  let ?secs = "[S1, S2, S3]"
  let ?ps = "[p1, p2, p3]"
  let ?s0 = "\<lparr>formatted_data = [], current_section_index = 0, current_section_text = []\<rparr>"
  let ?s1 = "\<lparr>formatted_data = [(S1, strip (take k2 ?T))], current_section_index = 1,
              current_section_text = []\<rparr>"
  let ?s2 = "\<lparr>formatted_data = AList.update S2 (strip (take k3 (drop k2 ?T)))
                                  [(S1, strip (take k2 ?T))],
              current_section_index = 2, current_section_text = []\<rparr>"
  from assms(4) have w0: "while_body ?secs ?ps ?s0 ?T = Inr (?s1, drop k2 ?T, False)"
    by (simp add: while_body_def list_get_def)
  from assms(5) have w1: "while_body ?secs ?ps ?s1 (drop k2 ?T)
                            = Inr (?s2, drop k3 (drop k2 ?T), False)"
    by (simp add: while_body_def list_get_def)
  have g0: "int (current_section_index ?s0) < int (length ?secs) - 1" by simp
  have g1: "int (current_section_index ?s1) < int (length ?secs) - 1" by simp
  have g2: "\<not> int (current_section_index ?s2) < int (length ?secs) - 1" by simp
  have "scan_page ?secs ?ps ?s0 ?T = scan_page ?secs ?ps ?s1 (drop k2 ?T)"
    using scan_page_step [OF g0 w0] by (simp only: if_False)
  also have "\<dots> = scan_page ?secs ?ps ?s2 (drop k3 (drop k2 ?T))"
    using scan_page_step [OF g1 w1] by (simp only: if_False)
  also have "\<dots> = Inr (?s2, drop k3 (drop k2 ?T))"
    using g2 by (rule scan_page_done)
  finally have p: "scan_page ?secs ?ps ?s0 ?T = Inr (?s2, drop k3 (drop k2 ?T))" .
  have "those (map compile_section_pattern ?secs) = Some ?ps"
    using assms(1,2,3) by simp
  then have
    "extract_section_content u \<lparr>pages = [raw], title = ttl\<rparr> 0 ?secs
       = Inr (AList.update S3 (drop k3 (drop k2 ?T)) (formatted_data ?s2))"
    using p by (simp add: extract_section_content_def list_get_def del: update.simps)
  then have
    "extract_section_content u \<lparr>pages = [raw], title = ttl\<rparr> 0 ?secs
       = Inr (AList.update S3 (drop k3 (drop k2 ?T))
               (AList.update S2 (strip (take k3 (drop k2 ?T)))
                 [(S1, strip (take k2 ?T))]))"
    by (simp del: update.simps)
  with search_sound [OF assms(4)] search_sound [OF assms(5)] show ?thesis by blast
qed

lemma compile_three_sections:
  "map compile_section_pattern three_sections = map Some three_patterns"
  by (simp add: three_sections_def three_patterns_def eval_defs pattern_defs)

lemma clean_three_page: "clean_text ascii_tables three_page = three_page"
  by (simp add: three_page_def eval_defs)

lemma search_three_page:
  "search (three_patterns ! 1) three_page = Some 41
   \<and> search (three_patterns ! 2) (drop 41 three_page) = Some 29"
  by (simp add: three_patterns_def three_page_def eval_defs)

lemma strip_joined:
  assumes "a \<noteq> [] \<and> strip a = a" and "b \<noteq> [] \<and> strip b = b"
  shows "strip (a @ 32 # b @ [32]) = a @ 32 # b"
proof -
  from assms have ha: "\<not> is_space (hd a)" and lb: "\<not> is_space (last b)"
    by (auto simp: strip_fixed_iff)
  from assms ha have "dropWhile is_space (a @ 32 # b @ [32]) = a @ 32 # b @ [32]"
    by (cases a) auto
  moreover have "rev (a @ 32 # b @ [32]) = 32 # (rev b @ 32 # rev a)" by simp
  moreover from assms lb have "dropWhile is_space (rev b @ 32 # rev a) = rev b @ 32 # rev a"
    by (cases "rev b") (auto simp: hd_rev)
  ultimately show ?thesis by (simp add: strip_def)
qed

text \<open>
  C2, as amended. Take the section list \<open>[S1, S2, S3]\<close>, titles whose patterns
  compile, and one page whose normalized text is \<open>S1 B1 S2 B2 S3 B3\<close>: the pieces are
  non-empty and trimmed and a single space stands between them. If the pattern of
  \<open>S2\<close> is first found where \<open>S2\<close> stands and, from there on, the pattern of \<open>S3\<close> is
  first found where \<open>S3\<close> stands, then \<^verbatim>\<open>extract_section_content\<close> returns exactly
  the mapping of \<open>S1\<close> to \<open>S1 B1\<close>, of \<open>S2\<close> to \<open>S2 B2\<close> and of \<open>S3\<close> to \<open>S3 B3\<close>: each
  value is the section's own title followed by its body.
\<close>

theorem three_sections_on_a_page:
  assumes "compile_section_pattern S1 = Some p1"
    and "compile_section_pattern S2 = Some p2"
    and "compile_section_pattern S3 = Some p3"
    and "clean_text u raw = S1 @ 32 # B1 @ 32 # S2 @ 32 # B2 @ 32 # S3 @ 32 # B3"
    and "S1 \<noteq> [] \<and> strip S1 = S1" and "B1 \<noteq> [] \<and> strip B1 = B1"
    and "S2 \<noteq> [] \<and> strip S2 = S2" and "B2 \<noteq> [] \<and> strip B2 = B2"
    and "search p2 (S1 @ 32 # B1 @ 32 # S2 @ 32 # B2 @ 32 # S3 @ 32 # B3)
           = Some (length (S1 @ 32 # B1 @ [32]))"
    and "search p3 (S2 @ 32 # B2 @ 32 # S3 @ 32 # B3) = Some (length (S2 @ 32 # B2 @ [32]))"
  shows "extract_section_content u \<lparr>pages = [raw], title = ttl\<rparr> 0 [S1, S2, S3]
           = Inr (AList.update S3 (S3 @ 32 # B3)
                   (AList.update S2 (S2 @ 32 # B2) [(S1, S1 @ 32 # B1)]))"
proof -
  let ?k2 = "length (S1 @ 32 # B1 @ [32])"
  let ?k3 = "length (S2 @ 32 # B2 @ [32])"
  let ?R2 = "S2 @ 32 # B2 @ 32 # S3 @ 32 # B3"
  let ?R3 = "S3 @ 32 # B3"
  have t: "clean_text u raw = (S1 @ 32 # B1 @ [32]) @ ?R2" using assms(4) by simp
  have r2: "?R2 = (S2 @ 32 # B2 @ [32]) @ ?R3" by simp
  have dl: "drop (length xs) (xs @ ys) = ys" for xs ys :: str by simp
  have tl: "take (length xs) (xs @ ys) = xs" for xs ys :: str by simp
  have d2: "drop ?k2 (clean_text u raw) = ?R2" unfolding t by (rule dl)
  have t2: "take ?k2 (clean_text u raw) = S1 @ 32 # B1 @ [32]"
    unfolding t by (rule tl)
  have d3: "drop ?k3 ?R2 = ?R3"
    by (subst r2) (rule dl)
  have t3: "take ?k3 ?R2 = S2 @ 32 # B2 @ [32]"
    by (subst r2) (rule tl)
  have s2: "search p2 (clean_text u raw) = Some ?k2" using assms(9) assms(4) by simp
  have s3: "search p3 (drop ?k2 (clean_text u raw)) = Some ?k3"
    unfolding d2 by (rule assms(10))
  from three_sections_slices [OF assms(1,2,3) s2 s3, of ttl] have
    "extract_section_content u \<lparr>pages = [raw], title = ttl\<rparr> 0 [S1, S2, S3]
       = Inr (AList.update S3 (drop ?k3 (drop ?k2 (clean_text u raw)))
               (AList.update S2 (strip (take ?k3 (drop ?k2 (clean_text u raw))))
                 [(S1, strip (take ?k2 (clean_text u raw)))]))"
    by (rule conjunct1)
  then show ?thesis
    unfolding d2 t2 d3 t3 strip_joined [OF assms(5) assms(6)] strip_joined [OF assms(7) assms(8)] .
qed

theorem three_sections_on_a_page_witness:
  "clean_text ascii_tables three_page
     = str_of ''1 short title'' @ 32 # str_of ''this act may be cited as x'' @ 32
         # str_of ''2 interpretation'' @ 32 # str_of ''in this act'' @ 32
         # str_of ''3 extent'' @ 32 # str_of ''it extends to y''
   \<and> search (three_patterns ! 1) three_page = Some 41
   \<and> search (three_patterns ! 2) (drop 41 three_page) = Some 29
   \<and> extract_section_content ascii_tables \<lparr>pages = [three_page], title = []\<rparr> 0 three_sections
       = Inr [(str_of ''1 short title'', str_of ''1 short title this act may be cited as x''),
              (str_of ''2 interpretation'', str_of ''2 interpretation in this act''),
              (str_of ''3 extent'', str_of ''3 extent it extends to y'')]"
proof -
  let ?S1 = "str_of ''1 short title''" and ?B1 = "str_of ''this act may be cited as x''"
  let ?S2 = "str_of ''2 interpretation''" and ?B2 = "str_of ''in this act''"
  let ?S3 = "str_of ''3 extent''" and ?B3 = "str_of ''it extends to y''"
  have c: "compile_section_pattern ?S1 = Some (three_patterns ! 0)"
      "compile_section_pattern ?S2 = Some (three_patterns ! 1)"
      "compile_section_pattern ?S3 = Some (three_patterns ! 2)"
    using compile_three_sections by (simp_all add: three_sections_def three_patterns_def)
  have pg: "three_page = ?S1 @ 32 # ?B1 @ 32 # ?S2 @ 32 # ?B2 @ 32 # ?S3 @ 32 # ?B3"
    by (simp add: three_page_def str_of_def)
  have t: "clean_text ascii_tables three_page
             = ?S1 @ 32 # ?B1 @ 32 # ?S2 @ 32 # ?B2 @ 32 # ?S3 @ 32 # ?B3"
    unfolding clean_three_page by (rule pg)
  have tr: "?S1 \<noteq> [] \<and> strip ?S1 = ?S1" "?B1 \<noteq> [] \<and> strip ?B1 = ?B1"
      "?S2 \<noteq> [] \<and> strip ?S2 = ?S2" "?B2 \<noteq> [] \<and> strip ?B2 = ?B2"
    by (simp_all add: eval_defs)
  have s2: "search (three_patterns ! 1)
              (?S1 @ 32 # ?B1 @ 32 # ?S2 @ 32 # ?B2 @ 32 # ?S3 @ 32 # ?B3)
            = Some (length (?S1 @ 32 # ?B1 @ [32]))"
    by (simp add: three_patterns_def eval_defs)
  have s3: "search (three_patterns ! 2) (?S2 @ 32 # ?B2 @ 32 # ?S3 @ 32 # ?B3)
            = Some (length (?S2 @ 32 # ?B2 @ [32]))"
    by (simp add: three_patterns_def eval_defs)
  have v: "AList.update ?S3 (?S3 @ 32 # ?B3)
             (AList.update ?S2 (?S2 @ 32 # ?B2) [(?S1, ?S1 @ 32 # ?B1)])
           = [(?S1, str_of ''1 short title this act may be cited as x''),
              (?S2, str_of ''2 interpretation in this act''),
              (?S3, str_of ''3 extent it extends to y'')]"
    by (simp add: str_of_def)
  have e: "extract_section_content ascii_tables \<lparr>pages = [three_page], title = []\<rparr> 0
             [?S1, ?S2, ?S3]
           = Inr (AList.update ?S3 (?S3 @ 32 # ?B3)
                   (AList.update ?S2 (?S2 @ 32 # ?B2) [(?S1, ?S1 @ 32 # ?B1)]))"
    by (rule three_sections_on_a_page [OF c t tr s2 s3])
  show ?thesis
    unfolding three_sections_def e v using t search_three_page by simp
qed

text \<open>
  Without the condition on where the patterns are first found the slices differ:
  here the pattern of "2 arrest" is found inside the title "12 arrest", whose value
  is cut after its first character.
\<close>

lemma title_cut_by_next_pattern:
  "extract_section_content ascii_tables
     \<lparr>pages = [str_of ''1 intro body 12 arrest more 2 arrest rest''], title = []\<rparr> 0
     [str_of ''1 intro'', str_of ''12 arrest'', str_of ''2 arrest'']
   = Inr [(str_of ''1 intro'', str_of ''1 intro body''),
          (str_of ''12 arrest'', str_of ''1''),
          (str_of ''2 arrest'', str_of ''2 arrest more 2 arrest rest'')]"
  by (simp add: eval_defs pattern_defs scan_defs)

text \<open>
  C2 as stated fails: on the page \<open>S1 B1 S2 B2 S3 B3\<close> every value begins with the
  section's own title.
\<close>

theorem three_sections_titles_kept_counterexample:
  "extract_section_content ascii_tables \<lparr>pages = [three_page], title = []\<rparr> 0 three_sections
     = Inr [(str_of ''1 short title'', str_of ''1 short title this act may be cited as x''),
            (str_of ''2 interpretation'', str_of ''2 interpretation in this act''),
            (str_of ''3 extent'', str_of ''3 extent it extends to y'')]
   \<and> extract_section_content ascii_tables \<lparr>pages = [three_page], title = []\<rparr> 0 three_sections
     \<noteq> Inr [(str_of ''1 short title'', str_of ''this act may be cited as x''),
            (str_of ''2 interpretation'', str_of ''in this act''),
            (str_of ''3 extent'', str_of ''it extends to y'')]"
  by (simp add: three_page_def three_sections_def eval_defs pattern_defs scan_defs)

section \<open>Containment of exceptions\<close>

lemma is_meta_replaced: "is_meta c \<Longrightarrow> characters_to_replace c \<and> c < 128"
  by (auto simp: is_meta_def str_of_def characters_to_replace_def)

lemma lower_cp_ascii_meta:
  assumes "c < 128" and "\<not> characters_to_replace c" and "d \<in> set (lower_cp u c)"
  shows "\<not> is_meta d"
proof
  assume "is_meta d"
  then have "characters_to_replace d" by (simp add: is_meta_replaced)
  with assms show False
    by (auto simp: lower_cp_def characters_to_replace_def split: if_splits)
qed

lemma clean_text_meta_free:
  assumes H: "\<forall>c d. 128 \<le> c \<and> \<not> characters_to_replace c \<and> d \<in> set (lower_of u c)
                \<longrightarrow> \<not> is_meta d"
  shows "meta_free (clean_text u x)"
proof -
  have "\<not> is_meta d" if d: "d \<in> set (clean_text u x)" for d
  proof -
    from d have "d \<in> insert 32 (set (lower u (translate x)))"
      unfolding clean_text_def using set_strip set_sub_spaces by blast
    then show ?thesis
    proof
      assume "d = 32"
      then show ?thesis by (simp add: is_meta_def str_of_def)
    next
      assume "d \<in> set (lower u (translate x))"
      then have "d = 962 \<or> d = 963 \<or> (\<exists>c\<in>set (translate x). c \<noteq> 931 \<and> d \<in> set (lower_cp u c))"
        unfolding lower_def by (rule set_lower_from)
      then show ?thesis
      proof (elim disjE bexE conjE)
        assume "d = 962"
        then show ?thesis by (simp add: is_meta_def str_of_def)
      next
        assume "d = 963"
        then show ?thesis by (simp add: is_meta_def str_of_def)
      next
        fix c
        assume c: "c \<in> set (translate x)" and ns: "c \<noteq> 931"
          and dc: "d \<in> set (lower_cp u c)"
        from c have nc: "\<not> characters_to_replace c" by (rule set_translate)
        show ?thesis
        proof (cases "c < 128")
          case True
          then show ?thesis using nc dc by (rule lower_cp_ascii_meta)
        next
          case False
          with dc have "d \<in> set (lower_of u c)" by (simp add: lower_cp_def)
          with H nc False show ?thesis by (simp add: not_less)
        qed
      qed
    qed
  qed
  then show ?thesis by (simp add: meta_free_def list_all_iff)
qed

lemma split_words_chars: "w \<in> set (split_words t) \<Longrightarrow> set w \<subseteq> set t"
proof (induction t arbitrary: w rule: split_words.induct)
  case (1 t)
  show ?case
  proof (cases "dropWhile is_space t")
    case Nil
    with "1.prems" show ?thesis by (simp add: split_words.simps [of t])
  next
    case (Cons c cs)
    have sub: "set (c # cs) \<subseteq> set t"
      using Cons set_dropWhileD [of _ is_space t] by (metis subsetI)
    from "1.prems" Cons have
      "w = takeWhile (\<lambda>x. \<not> is_space x) (c # cs)
         \<or> w \<in> set (split_words (dropWhile (\<lambda>x. \<not> is_space x) cs))"
      by (simp add: split_words.simps [of t])
    then show ?thesis
    proof
      assume "w = takeWhile (\<lambda>x. \<not> is_space x) (c # cs)"
      then have "set w \<subseteq> set (c # cs)" using set_takeWhileD by (metis subsetI)
      with sub show ?thesis by blast
    next
      assume "w \<in> set (split_words (dropWhile (\<lambda>x. \<not> is_space x) cs))"
      with "1.IH" [OF Cons] have "set w \<subseteq> set (dropWhile (\<lambda>x. \<not> is_space x) cs)" .
      also have "\<dots> \<subseteq> set cs" using set_dropWhileD by (metis subsetI)
      finally show ?thesis using sub by auto
    qed
  qed
qed

lemma pluralized_word_core:
  "\<exists>core. pluralized_word w = core @ [115, 63] \<and> set core \<subseteq> set w"
proof (cases "w \<noteq> [] \<and> last w = 115")
  case True
  then have "w = butlast w @ [115]" by (metis append_butlast_last_id)
  then have "pluralized_word w = butlast w @ [115, 63]"
    using True by (simp add: pluralized_word_def str_of_def)
  moreover have "set (butlast w) \<subseteq> set w" by (meson in_set_butlastD subsetI)
  ultimately show ?thesis by blast
next
  case False
  then have "pluralized_word w = w @ [115, 63]"
    by (simp add: pluralized_word_def str_of_def)
  then show ?thesis by blast
qed

lemma parse_items_word:
  assumes "\<forall>c\<in>set core. \<not> is_meta c"
  shows "parse_items (core @ 115 # 63 # rest)
           = map_option (\<lambda>r. map Lit core @ Opt 115 # r) (parse_items rest)"
  using assms
proof (induction core)
  case Nil
  show ?case by (simp add: is_meta_def str_of_def option.map_ident)
next
  case (Cons c core)
  from Cons.prems have c: "\<not> is_meta c" "c \<noteq> 92" by (auto simp: is_meta_def)
  obtain q r' where r: "core @ 115 # 63 # rest = q # r'" and q: "q \<noteq> 63"
  proof (cases core)
    case Nil
    then show ?thesis using that by simp
  next
    case (Cons a as)
    with Cons.prems have "\<not> is_meta a" by simp
    then have "a \<noteq> 63" by (auto simp: is_meta_def str_of_def)
    with Cons show ?thesis using that by simp
  qed
  have "parse_items ((c # core) @ 115 # 63 # rest)
          = map_option (Cons (Lit c)) (parse_items (core @ 115 # 63 # rest))"
    using c q r by simp
  also have "\<dots> = map_option (Cons (Lit c))
                      (map_option (\<lambda>r. map Lit core @ Opt 115 # r) (parse_items rest))"
    using Cons by simp
  finally show ?case by (simp add: option.map_comp comp_def)
qed

lemma parse_items_join:
  assumes "\<forall>w\<in>set ws. \<forall>c\<in>set w. \<not> is_meta c"
  shows "parse_items (join [92, 115] (map pluralized_word ws)) \<noteq> None"
  using assms
proof (induction ws rule: induct_list012)
  case 1
  show ?case by simp
next
  case (2 w)
  obtain core where p: "pluralized_word w = core @ [115, 63]" and s: "set core \<subseteq> set w"
    using pluralized_word_core by blast
  from s 2 have "\<forall>c\<in>set core. \<not> is_meta c" by auto
  from parse_items_word [OF this, of "[]"] p show ?case by simp
next
  case (3 w v ws)
  obtain core where p: "pluralized_word w = core @ [115, 63]" and s: "set core \<subseteq> set w"
    using pluralized_word_core by blast
  from s "3.prems" have m: "\<forall>c\<in>set core. \<not> is_meta c" by auto
  from "3.prems" have "parse_items (join [92, 115] (map pluralized_word (v # ws))) \<noteq> None"
    by (intro "3.IH") simp
  then obtain items where
      j: "parse_items (join [92, 115] (map pluralized_word (v # ws))) = Some items"
    by blast
  have "join [92, 115] (map pluralized_word (w # v # ws))
          = core @ 115 # 63 # (92 # 115 # join [92, 115] (map pluralized_word (v # ws)))"
    using p by simp
  then show ?case using parse_items_word [OF m] j by simp
qed

lemma compile_meta_free:
  assumes "meta_free t"
  shows "compile_section_pattern t \<noteq> None"
proof -
  have "\<forall>w\<in>set (split_words t). \<forall>c\<in>set w. \<not> is_meta c"
    using assms split_words_chars by (fastforce simp: meta_free_def list_all_iff)
  then have "parse_items (join [92, 115] (map pluralized_word (split_words t))) \<noteq> None"
    by (rule parse_items_join)
  then show ?thesis
    by (simp add: compile_section_pattern_def re_compile_def section_pattern_def)
qed

lemma those_map_Some:
  "\<forall>x\<in>set xs. f x \<noteq> None \<Longrightarrow> those (map f xs) \<noteq> None"
  by (induction xs) (auto split: option.splits)

lemma titles_meta_free_update:
  "titles_meta_free cs \<Longrightarrow> list_all meta_free v \<Longrightarrow> titles_meta_free (AList.update k v cs)"
  by (induction cs) (auto simp: titles_meta_free_def)

lemma titles_meta_free_lookup:
  "titles_meta_free cs \<Longrightarrow> map_of cs k = Some secs \<Longrightarrow> list_all meta_free secs"
  by (auto simp: titles_meta_free_def list_all_iff dest: map_of_SomeD)

lemma process_toc_line_inv:
  assumes H: "\<forall>c d. 128 \<le> c \<and> \<not> characters_to_replace c \<and> d \<in> set (lower_of u c)
                \<longrightarrow> \<not> is_meta d"
    and "titles_meta_free cs"
  shows "case process_toc_line u line cur cs of
           Inl e \<Rightarrow> e = KeyError
         | Inr (cur', cs') \<Rightarrow> titles_meta_free cs'"
proof (cases "is_chapter_line line")
  case True
  with assms(2) show ?thesis
    by (simp add: process_toc_line_def titles_meta_free_update)
next
  case False
  show ?thesis
  proof (cases "section_match u (strip line)")
    case None
    with False assms(2) show ?thesis
      by (simp add: process_toc_line_def is_section_line_def)
  next
    case m: (Some sec)
    show ?thesis
    proof (cases "map_of cs cur")
      case None
      with False m show ?thesis
        by (simp add: process_toc_line_def is_section_line_def)
    next
      case (Some secs)
      with assms(2) have "list_all meta_free secs" by (rule titles_meta_free_lookup)
      moreover have "meta_free (clean_text u sec)"
        using H by (rule clean_text_meta_free)
      ultimately have "list_all meta_free (secs @ [clean_text u sec])" by simp
      with assms(2) have
        "titles_meta_free (AList.update cur (secs @ [clean_text u sec]) cs)"
        by (rule titles_meta_free_update)
      with False m Some show ?thesis
        by (simp add: process_toc_line_def is_section_line_def)
    qed
  qed
qed

lemma toc_lines_inv:
  assumes H: "\<forall>c d. 128 \<le> c \<and> \<not> characters_to_replace c \<and> d \<in> set (lower_of u c)
                \<longrightarrow> \<not> is_meta d"
    and "titles_meta_free cs"
  shows "case toc_lines u lines cur cs of
           Inl e \<Rightarrow> e = KeyError
         | Inr (cur', cs') \<Rightarrow> titles_meta_free cs'"
  using assms(2)
proof (induction lines arbitrary: cur cs)
  case Nil
  then show ?case by simp
next
  case (Cons line rest)
  show ?case
  proof (cases "process_toc_line u line cur cs")
    case (Inl e)
    with process_toc_line_inv [OF H Cons.prems, of line cur] show ?thesis by simp
  next
    case (Inr r)
    obtain cur1 cs1 where r: "r = (cur1, cs1)" by (cases r)
    with process_toc_line_inv [OF H Cons.prems, of line cur] Inr
    have "titles_meta_free cs1" by simp
    from Cons.IH [OF this, of cur1] Inr r show ?thesis by simp
  qed
qed

lemma toc_pages_inv:
  assumes H: "\<forall>c d. 128 \<le> c \<and> \<not> characters_to_replace c \<and> d \<in> set (lower_of u c)
                \<longrightarrow> \<not> is_meta d"
    and "titles_meta_free (chapters_sections st)"
  shows "case toc_pages u ttl n ps st of
           Inl e \<Rightarrow> e = KeyError \<or> e = IndexError
         | Inr st' \<Rightarrow> titles_meta_free (chapters_sections st')"
  using assms(2)
proof (induction ps arbitrary: n st)
  case Nil
  then show ?case by simp
next
  case (Cons raw rest)
  have lines: "case toc_lines u ls (current_chapter st) (chapters_sections st) of
                 Inl e \<Rightarrow> e = KeyError
               | Inr (cur', cs') \<Rightarrow> titles_meta_free cs'" for ls
    using H Cons.prems by (rule toc_lines_inv)
  have rec: "case toc_pages u ttl (Suc n) rest st1 of
               Inl e \<Rightarrow> e = KeyError \<or> e = IndexError
             | Inr st' \<Rightarrow> titles_meta_free (chapters_sections st')"
    if "titles_meta_free (chapters_sections st1)" for st1
    using that by (rule Cons.IH)
  show ?case
  proof (cases "contains marker raw")
    case True
    show ?thesis
    proof (cases "list_get (split_str marker raw) 1")
      case (Inl e)
      then have "e = IndexError" by (auto simp: list_get_def split: if_splits)
      with True Inl show ?thesis by (simp add: Let_def)
    next
      case (Inr text1)
      show ?thesis
      proof (cases "toc_lines u (split_str [10] text1) (current_chapter st)
                      (chapters_sections st)")
        case (Inl e)
        with lines [of "split_str [10] text1"] have "e = KeyError" by simp
        with True Inr Inl show ?thesis by (simp add: Let_def)
      next
        case r: (Inr res)
        obtain cur cs where res: "res = (cur, cs)" by (cases res)
        with lines [of "split_str [10] text1"] r have "titles_meta_free cs" by simp
        then have "case toc_pages u ttl (Suc n) rest
                          (st\<lparr>chapters_sections := cs, current_chapter := cur,
                              toc_found := True, last_page := n\<rparr>) of
               Inl e \<Rightarrow> e = KeyError \<or> e = IndexError
             | Inr st' \<Rightarrow> titles_meta_free (chapters_sections st')"
          by (intro rec) simp
        with True Inr r res show ?thesis by (simp add: Let_def)
      qed
    qed
  next
    case nm: False
    show ?thesis
    proof (cases "toc_found st")
      case False
      have "case toc_pages u ttl (Suc n) rest (st\<lparr>last_page := n\<rparr>) of
               Inl e \<Rightarrow> e = KeyError \<or> e = IndexError
             | Inr st' \<Rightarrow> titles_meta_free (chapters_sections st')"
        using Cons.prems by (intro rec) simp
      with nm False show ?thesis by (simp add: Let_def)
    next
      case True
      show ?thesis
      proof (cases "contains ttl raw")
        case True
        with nm \<open>toc_found st\<close> Cons.prems show ?thesis by (simp add: Let_def)
      next
        case nt: False
        show ?thesis
        proof (cases "toc_lines u (split_str [10] raw) (current_chapter st)
                        (chapters_sections st)")
          case (Inl e)
          with lines [of "split_str [10] raw"] have "e = KeyError" by simp
          with nm True nt Inl show ?thesis by (simp add: Let_def)
        next
          case r: (Inr res)
          obtain cur cs where res: "res = (cur, cs)" by (cases res)
          with lines [of "split_str [10] raw"] r have "titles_meta_free cs" by simp
          then have "case toc_pages u ttl (Suc n) rest
                          (st\<lparr>chapters_sections := cs, current_chapter := cur,
                              toc_found := True, last_page := n\<rparr>) of
               Inl e \<Rightarrow> e = KeyError \<or> e = IndexError
             | Inr st' \<Rightarrow> titles_meta_free (chapters_sections st')"
            by (intro rec) simp
          with nm True nt r res show ?thesis by (simp add: Let_def)
        qed
      qed
    qed
  qed
qed

lemma extract_toc_inv:
  assumes H: "\<forall>c d. 128 \<le> c \<and> \<not> characters_to_replace c \<and> d \<in> set (lower_of u c)
                \<longrightarrow> \<not> is_meta d"
  shows "case extract_table_of_contents u doc of
           Inl e \<Rightarrow> e = KeyError \<or> e = IndexError
         | Inr (toc, end_page) \<Rightarrow> titles_meta_free toc"
proof -
  let ?st0 = "\<lparr>chapters_sections = [], current_chapter = [], toc_found = False,
              last_page = 0\<rparr>"
  have "titles_meta_free (chapters_sections ?st0)" by (simp add: titles_meta_free_def)
  from toc_pages_inv [OF H this, of "title doc" 0 "pages doc"] show ?thesis
    by (auto simp: extract_table_of_contents_def split: sum.splits)
qed

lemma while_body_errors: "while_body sections section_patterns s t = Inl e \<Longrightarrow> e = IndexError"
  by (auto simp: while_body_def list_get_def split: sum.splits option.splits if_splits)

lemma scan_page_errors: "scan_page sections section_patterns s t = Inl e \<Longrightarrow> e = IndexError"
proof (induction sections section_patterns s t rule: scan_page.induct)
  case (1 sections section_patterns s t)
  show ?case
  proof (cases "int (current_section_index s) < int (length sections) - 1")
    case False
    with "1.prems" show ?thesis by (simp add: scan_page_done)
  next
    case True
    show ?thesis
    proof (cases "while_body sections section_patterns s t")
      case (Inl e')
      with True "1.prems" have "e' = e" by (simp add: scan_page_error)
      with Inl show ?thesis by (simp add: while_body_errors)
    next
      case (Inr r)
      then obtain s1 t1 b where
          w: "while_body sections section_patterns s t = Inr (s1, t1, b)"
        by (cases r) auto
      show ?thesis
      proof (cases b)
        case b: True
        with True w "1.prems" show ?thesis by (simp add: scan_page_step)
      next
        case b: False
        with True w "1.prems" have "scan_page sections section_patterns s1 t1 = Inl e"
          by (simp add: scan_page_step)
        from "1.IH" [OF True w refl refl b this] show ?thesis .
      qed
    qed
  qed
qed

lemma scan_pages_errors:
  "scan_pages u sections section_patterns raws st = Inl e \<Longrightarrow> e = IndexError"
proof (induction raws arbitrary: st)
  case Nil
  then show ?case by simp
next
  case (Cons raw rest)
  obtain s t where st: "st = (s, t)" by (cases st)
  show ?case
  proof (cases "scan_page sections section_patterns s (clean_text u raw)")
    case (Inl e')
    with Cons.prems st have "e' = e" by simp
    with Inl show ?thesis by (simp add: scan_page_errors)
  next
    case (Inr r)
    with Cons.prems st show ?thesis by (cases r) (auto intro: Cons.IH)
  qed
qed

lemma extract_section_content_errors:
  assumes "extract_section_content u doc start_page sections = Inl e"
    and "list_all meta_free sections"
  shows "e = IndexError \<or> e = UnboundLocalError"
proof -
  from assms(2) have "\<forall>x\<in>set sections. compile_section_pattern x \<noteq> None"
    by (simp add: list_all_iff compile_meta_free)
  then have "those (map compile_section_pattern sections) \<noteq> None"
    by (rule those_map_Some)
  then obtain ps where ps: "those (map compile_section_pattern sections) = Some ps" by blast
  let ?s0 = "\<lparr>formatted_data = [], current_section_index = 0, current_section_text = []\<rparr>"
  show ?thesis
  proof (cases "scan_pages u sections ps (drop start_page (pages doc)) (?s0, None)")
    case (Inl e')
    with assms(1) ps have "e' = e" by (simp add: extract_section_content_def)
    with Inl show ?thesis by (simp add: scan_pages_errors)
  next
    case (Inr r)
    with assms(1) ps show ?thesis
      by (cases r)
         (auto simp: extract_section_content_def list_get_def split: option.splits if_splits)
  qed
qed

lemma titles_meta_free_concat:
  "titles_meta_free toc \<Longrightarrow> list_all meta_free (concat (map snd toc))"
  by (induction toc) (auto simp: titles_meta_free_def)

lemma try_body_errors:
  assumes H: "\<forall>c d. 128 \<le> c \<and> \<not> characters_to_replace c \<and> d \<in> set (lower_of u c)
                \<longrightarrow> \<not> is_meta d"
    and W: "\<forall>p d e. fs p d = Some e \<longrightarrow> is_exception e"
    and "try_body u fs doc json_path = Inl e"
  shows "is_exception e"
proof (cases "extract_table_of_contents u doc")
  case (Inl e')
  with assms(3) have "e' = e" by (simp add: try_body_def)
  with extract_toc_inv [OF H, of doc] Inl show ?thesis by (auto simp: is_exception_def)
next
  case (Inr r)
  obtain toc end_page where r: "r = (toc, end_page)" by (cases r)
  with extract_toc_inv [OF H, of doc] Inr have "titles_meta_free toc" by simp
  then have m: "list_all meta_free (concat (map snd toc))" by (rule titles_meta_free_concat)
  show ?thesis
  proof (cases "extract_section_content u doc end_page (concat (map snd toc))")
    case (Inl e')
    with assms(3) Inr r have "e' = e" by (simp add: try_body_def)
    with extract_section_content_errors [OF _ m] Inl show ?thesis
      by (auto simp: is_exception_def)
  next
    case d: (Inr data)
    with assms(3) Inr r have "fs json_path data = Some e"
      by (auto simp: try_body_def save_data_to_json_def split: option.splits)
    with W show ?thesis by blast
  qed
qed

text \<open>
  C9. Whatever the document and the output path, \<^verbatim>\<open>extract_sections_to_json\<close> ends
  by writing the file or by printing one of its diagnostic lines: no exception of the
  pipeline leaves it. The hypotheses are on what the repository does not hold: the
  lowercase table beyond ASCII yields no regular-expression metacharacter, and a
  failing write raises an instance of \<^verbatim>\<open>Exception\<close>.
\<close>

theorem no_exception_propagates:
  assumes "\<forall>c d. 128 \<le> c \<and> \<not> characters_to_replace c \<and> d \<in> set (lower_of u c)
             \<longrightarrow> \<not> is_meta d"
    and "\<forall>p d e. fs p d = Some e \<longrightarrow> is_exception e"
  shows "(\<exists>data. extract_sections_to_json u fs doc json_path = Saved json_path data)
         \<or> (\<exists>k e. extract_sections_to_json u fs doc json_path = Reported k e
                  \<and> is_exception e)"
proof (cases "try_body u fs doc json_path")
  case (Inr data)
  then show ?thesis by (simp add: extract_sections_to_json_def)
next
  case (Inl e)
  with assms have "is_exception e" by (rule try_body_errors)
  with Inl show ?thesis
    by (auto simp: extract_sections_to_json_def except_clauses_def is_exception_def)
qed

lemma ascii_tables_meta:
  "\<forall>c d. 128 \<le> c \<and> \<not> characters_to_replace c \<and> d \<in> set (lower_of ascii_tables c)
     \<longrightarrow> \<not> is_meta d"
  by (auto simp: ascii_tables_def dest: is_meta_replaced)

theorem no_exception_propagates_witness:
  "is_exception PermissionError
   \<and> extract_sections_to_json ascii_tables fs_denied act_doc (str_of ''out.json'')
       = Reported FileError PermissionError
   \<and> extract_sections_to_json ascii_tables fs_ok act_doc (str_of ''out.json'')
       = Saved (str_of ''out.json'')
           [(str_of ''1 short title'',
             str_of ''the act 1 short title this act may be cited as x''),
            (str_of ''2 interpretation'', str_of ''2 interpretation in this act'')]"
proof -
  have w: "\<forall>p d e. fs_denied p d = Some e \<longrightarrow> is_exception e"
    by (simp add: fs_denied_def is_exception_def)
  have "extract_section_content ascii_tables act_doc 1
          [str_of ''1 short title'', str_of ''2 interpretation'']
        = Inr [(str_of ''1 short title'',
                str_of ''the act 1 short title this act may be cited as x''),
               (str_of ''2 interpretation'', str_of ''2 interpretation in this act'')]"
    by (simp add: act_defs eval_defs pattern_defs scan_defs)
  with act_doc_toc have
    t: "try_body ascii_tables fs act_doc (str_of ''out.json'')
          = (case fs (str_of ''out.json'')
                  [(str_of ''1 short title'',
                    str_of ''the act 1 short title this act may be cited as x''),
                   (str_of ''2 interpretation'', str_of ''2 interpretation in this act'')] of
               None \<Rightarrow> Inr [(str_of ''1 short title'',
                    str_of ''the act 1 short title this act may be cited as x''),
                   (str_of ''2 interpretation'', str_of ''2 interpretation in this act'')]
             | Some e \<Rightarrow> Inl e)" for fs
    by (simp add: try_body_def save_data_to_json_def split: option.splits)
  from no_exception_propagates [OF ascii_tables_meta w, of act_doc "str_of ''out.json''"]
  show ?thesis
    by (simp add: extract_sections_to_json_def t fs_denied_def fs_ok_def except_clauses_def
          is_exception_def)
qed

end
